theory Spec2Isabelle
  imports Complex_Main "HOL-Library.Word"
begin

section \<open>Worker-count configuration: \<open>getenv_as_size_t\<close>\<close>

text \<open>
  \<^verbatim>\<open>size_t getenv_as_size_t(auto key, size_t default_value=1)\<close> reads an environment
  variable with \<^verbatim>\<open>std::getenv\<close> and parses it with \<^verbatim>\<open>std::from_chars\<close>.
  \<^verbatim>\<open>std::getenv\<close> yields a null pointer (here \<open>None\<close>) or a NUL-terminated string.
  \<^verbatim>\<open>std::from_chars\<close> on an unsigned integer type in base 10 consumes the longest
  prefix of decimal digits: no leading white space, no sign. It returns the position of
  the first character that is not part of the number and an error code, and it assigns
  the output variable only on success.
\<close>

type_synonym size_t = "64 word"

definition is_digit :: "char \<Rightarrow> bool" where
  "is_digit c = (48 \<le> (of_char c :: nat) \<and> (of_char c :: nat) \<le> 57)"

definition digit_value :: "char \<Rightarrow> nat" where
  "digit_value c = (of_char c :: nat) - 48"

definition decimal_value :: "string \<Rightarrow> nat" where
  "decimal_value ds = foldl (\<lambda>acc c. 10 * acc + digit_value c) 0 ds"

datatype errc = No_error | Invalid_argument | Result_out_of_range

text \<open>
  \<open>from_chars s value\<close> is \<^verbatim>\<open>std::from_chars(first, first + strlen(first), value)\<close>
  for \<^verbatim>\<open>size_t value\<close>: the result is \<^verbatim>\<open>ptr - first\<close>, the error code, and the content
  of \<^verbatim>\<open>value\<close> afterwards (unchanged when nothing was parsed or the number does not
  fit in 64 bits).
\<close>

definition from_chars :: "string \<Rightarrow> size_t \<Rightarrow> nat \<times> errc \<times> size_t" where
  "from_chars s val =
     (let ds = takeWhile is_digit s in
      if ds = [] then (0, Invalid_argument, val)
      else if decimal_value ds \<ge> 2 ^ 64 then (length ds, Result_out_of_range, val)
      else (length ds, No_error, of_nat (decimal_value ds)))"

text \<open>
  The local \<^verbatim>\<open>size_t result;\<close> is declared without an initialiser; \<open>uninit\<close> is
  whatever it holds. The function compares only the returned pointer with the end of
  the string and never looks at the error code.
\<close>

definition getenv_as_size_t :: "string option \<Rightarrow> size_t \<Rightarrow> size_t \<Rightarrow> size_t" where
  "getenv_as_size_t val default_value uninit =
     (case val of
        None \<Rightarrow> default_value
      | Some v \<Rightarrow>
          (case from_chars v uninit of
             (ptr, error, result) \<Rightarrow> if ptr = length v then result else default_value))"

section \<open>The coordinated looping thread pool\<close>

text \<open>
  \<^verbatim>\<open>CoordinatedLoopingThreadpool\<close> owns one \<^verbatim>\<open>std::jthread\<close> per argument, two
  counting semaphores and the flag \<^verbatim>\<open>synced\<close>. The threads of the program are the
  caller and the workers; the system is modelled as an interleaving of their atomic
  steps. A schedule is the list of the threads that take the successive steps.
\<close>

datatype thread = Caller | Worker nat

text \<open>
  The function \<^verbatim>\<open>F\<close> bound to the pool is straight-line code: a list of instructions,
  each either \<^verbatim>\<open>arrive_and_wait()\<close> on the barrier that belongs to the pool's closure,
  or an action on the invocation's local variables and the shared memory, given the
  worker's argument.
\<close>

datatype ('a, 'l, 'm) instr =
    Arrive_and_wait
  | Act "'a \<Rightarrow> 'l \<Rightarrow> 'm \<Rightarrow> 'l \<times> 'm"

text \<open>
  The control points of the worker lambda (lines 33 to 40):
  \<open>W_acquire\<close> at \<^verbatim>\<open>start_sem.acquire()\<close>, \<open>W_check\<close> at the test of
  \<^verbatim>\<open>token.stop_requested()\<close>, \<open>W_run k\<close> inside \<^verbatim>\<open>F(arg)\<close> before its instruction
  \<open>k\<close>, \<open>W_wait k p\<close> inside \<^verbatim>\<open>arrive_and_wait()\<close> at instruction \<open>k\<close> having arrived
  in barrier phase \<open>p\<close>, \<open>W_release\<close> at \<^verbatim>\<open>finish_sem.release()\<close>, and \<open>W_exited\<close>
  after \<^verbatim>\<open>return\<close>.
\<close>

datatype wpc = W_acquire | W_check | W_run nat | W_wait nat nat | W_release | W_exited

record ('a, 'l) worker =
  wpc :: wpc
  stop_requested :: bool
  warg :: 'a
  wlocal :: 'l

record ('a, 'l) pool =
  workers :: "('a, 'l) worker list"
  start_sem :: nat
  finish_sem :: nat
  synced :: bool

text \<open>
  \<^verbatim>\<open>std::barrier<>\<close>: the number of expected arrivals per phase, the arrivals in the
  current phase, and the number of completed phases.
\<close>

record barrier =
  expected :: nat
  arrived :: nat
  phase :: nat

text \<open>
  The control points of the caller inside the pool's methods: \<open>C_release\<close> and
  \<open>C_unsync\<close> are lines 68 and 69 of \<^verbatim>\<open>trigger()\<close>; \<open>C_check\<close>, \<open>C_acquire k\<close> and
  \<open>C_set\<close> are lines 61, 62 (before its \<open>k\<close>-th iteration) and 63 of \<^verbatim>\<open>sync()\<close>;
  \<open>C_stop k\<close> is the loop of line 51 in the destructor; \<open>C_join k\<close> is the destruction of
  the member \<^verbatim>\<open>workers\<close>, where every \<^verbatim>\<open>std::jthread\<close> is joined. \<open>C_idle\<close> is
  outside the pool's methods.
\<close>

datatype cpc = C_idle | C_release | C_unsync | C_check | C_acquire nat | C_set
  | C_stop nat | C_join nat

datatype call = Trigger | Sync | Request_stop | Join

record ('a, 'l, 'm) config = "('a, 'l) pool" +
  bar :: barrier
  mem :: 'm
  cpc :: cpc
  calls :: "call list"

text \<open>The constructor (lines 31 to 42): one worker per argument, both semaphores 0.\<close>

definition new_worker :: "'l \<Rightarrow> 'a \<Rightarrow> ('a, 'l) worker" where
  "new_worker l0 a = \<lparr>wpc = W_acquire, stop_requested = False, warg = a, wlocal = l0\<rparr>"

definition new_pool :: "'l \<Rightarrow> 'a list \<Rightarrow> ('a, 'l) pool" where
  "new_pool l0 args =
     \<lparr>workers = map (new_worker l0) args, start_sem = 0, finish_sem = 0, synced = True\<rparr>"

definition new_barrier :: "nat \<Rightarrow> barrier" where
  "new_barrier n = \<lparr>expected = n, arrived = 0, phase = 0\<rparr>"

definition set_wpc :: "nat \<Rightarrow> wpc \<Rightarrow> ('a, 'l) worker list \<Rightarrow> ('a, 'l) worker list" where
  "set_wpc i q ws = ws[i := (ws ! i)\<lparr>wpc := q\<rparr>]"

text \<open>One step of worker \<open>i\<close>; \<open>None\<close> when the worker is blocked or has returned.\<close>

definition worker_step ::
  "('a, 'l, 'm) instr list \<Rightarrow> nat \<Rightarrow> ('a, 'l, 'm) config \<Rightarrow> ('a, 'l, 'm) config option" where
  "worker_step F i c =
     (if length (workers c) \<le> i then None
      else
        let ws = workers c; w = ws ! i in
        case wpc w of
          W_acquire \<Rightarrow>
            if start_sem c = 0 then None
            else Some (c\<lparr>workers := set_wpc i W_check ws, start_sem := start_sem c - 1\<rparr>)
        | W_check \<Rightarrow>
            if stop_requested w then Some (c\<lparr>workers := set_wpc i W_exited ws\<rparr>)
            else Some (c\<lparr>workers := set_wpc i (W_run 0) ws\<rparr>)
        | W_run k \<Rightarrow>
            if length F \<le> k then Some (c\<lparr>workers := set_wpc i W_release ws\<rparr>)
            else
              (case F ! k of
                 Act a \<Rightarrow>
                   (case a (warg w) (wlocal w) (mem c) of
                      (l', m') \<Rightarrow>
                        Some (c\<lparr>workers := ws[i := w\<lparr>wpc := W_run (Suc k), wlocal := l'\<rparr>],
                                mem := m'\<rparr>))
               | Arrive_and_wait \<Rightarrow>
                   if Suc (arrived (bar c)) = expected (bar c)
                   then Some (c\<lparr>workers := set_wpc i (W_run (Suc k)) ws,
                                bar := (bar c)\<lparr>arrived := 0, phase := Suc (phase (bar c))\<rparr>\<rparr>)
                   else Some (c\<lparr>workers := set_wpc i (W_wait k (phase (bar c))) ws,
                                bar := (bar c)\<lparr>arrived := Suc (arrived (bar c))\<rparr>\<rparr>))
        | W_wait k p \<Rightarrow>
            if phase (bar c) = p then None
            else Some (c\<lparr>workers := set_wpc i (W_run (Suc k)) ws\<rparr>)
        | W_release \<Rightarrow>
            Some (c\<lparr>workers := set_wpc i W_acquire ws, finish_sem := Suc (finish_sem c)\<rparr>)
        | W_exited \<Rightarrow> None)"

text \<open>
  One step of the caller; \<open>None\<close> when it is blocked in \<^verbatim>\<open>finish_sem.acquire()\<close> or in
  a join, or has no call left.
\<close>

definition caller_step :: "('a, 'l, 'm) config \<Rightarrow> ('a, 'l, 'm) config option" where
  "caller_step c =
     (case cpc c of
        C_idle \<Rightarrow>
          (case calls c of
             [] \<Rightarrow> None
           | Trigger # cs \<Rightarrow> Some (c\<lparr>cpc := C_release, calls := cs\<rparr>)
           | Sync # cs \<Rightarrow> Some (c\<lparr>cpc := C_check, calls := cs\<rparr>)
           | Request_stop # cs \<Rightarrow> Some (c\<lparr>cpc := C_stop 0, calls := cs\<rparr>)
           | Join # cs \<Rightarrow> Some (c\<lparr>cpc := C_join 0, calls := cs\<rparr>))
      | C_release \<Rightarrow>
          Some (c\<lparr>start_sem := start_sem c + length (workers c), cpc := C_unsync\<rparr>)
      | C_unsync \<Rightarrow> Some (c\<lparr>synced := False, cpc := C_idle\<rparr>)
      | C_check \<Rightarrow> if synced c then Some (c\<lparr>cpc := C_idle\<rparr>) else Some (c\<lparr>cpc := C_acquire 0\<rparr>)
      | C_acquire k \<Rightarrow>
          if length (workers c) \<le> k then Some (c\<lparr>cpc := C_set\<rparr>)
          else if finish_sem c = 0 then None
          else Some (c\<lparr>finish_sem := finish_sem c - 1, cpc := C_acquire (Suc k)\<rparr>)
      | C_set \<Rightarrow> Some (c\<lparr>synced := True, cpc := C_idle\<rparr>)
      | C_stop k \<Rightarrow>
          if length (workers c) \<le> k then Some (c\<lparr>cpc := C_idle\<rparr>)
          else Some (c\<lparr>workers := (workers c)[k := (workers c ! k)\<lparr>stop_requested := True\<rparr>],
                       cpc := C_stop (Suc k)\<rparr>)
      | C_join k \<Rightarrow>
          if length (workers c) \<le> k then Some (c\<lparr>cpc := C_idle\<rparr>)
          else if wpc (workers c ! k) = W_exited then Some (c\<lparr>cpc := C_join (Suc k)\<rparr>)
          else None)"

definition thread_step ::
  "('a, 'l, 'm) instr list \<Rightarrow> thread \<Rightarrow> ('a, 'l, 'm) config \<Rightarrow> ('a, 'l, 'm) config option" where
  "thread_step F th c = (case th of Caller \<Rightarrow> caller_step c | Worker i \<Rightarrow> worker_step F i c)"

text \<open>
  Running a schedule: \<open>None\<close> when it names a thread that cannot take a step at its
  turn.
\<close>

fun exec ::
  "('a, 'l, 'm) instr list \<Rightarrow> thread list \<Rightarrow> ('a, 'l, 'm) config \<Rightarrow> ('a, 'l, 'm) config option" where
  "exec F [] c = Some c"
| "exec F (th # sch) c =
     (case thread_step F th c of None \<Rightarrow> None | Some c' \<Rightarrow> exec F sch c')"

text \<open>The caller has returned from its last call.\<close>

definition returned :: "('a, 'l, 'm) config \<Rightarrow> bool" where
  "returned c = (cpc c = C_idle \<and> calls c = [])"

text \<open>\<^verbatim>\<open>trigger_sync()\<close> is \<^verbatim>\<open>trigger(); sync();\<close> and the destructor requests every
  worker to stop, calls \<^verbatim>\<open>trigger()\<close>, and then destroys the members.\<close>

definition trigger_sync :: "call list" where
  "trigger_sync = [Trigger, Sync]"

definition destroy :: "call list" where
  "destroy = [Request_stop, Trigger, Join]"

definition run_config ::
  "('a, 'l) pool \<Rightarrow> barrier \<Rightarrow> 'm \<Rightarrow> call list \<Rightarrow> ('a, 'l, 'm) config" where
  "run_config p b m cs = pool.extend p \<lparr>bar = b, mem = m, cpc = C_idle, calls = cs\<rparr>"

definition pool_of :: "('a, 'l, 'm) config \<Rightarrow> ('a, 'l) pool" where
  "pool_of c = pool.truncate c"


section \<open>The grid stepper \<open>MountainRangeThreaded\<close>\<close>

text \<open>
  The data members the threads share: \<^verbatim>\<open>h\<close>, \<^verbatim>\<open>g\<close> and \<^verbatim>\<open>t\<close> are inherited from
  \<^verbatim>\<open>MountainRangeSharedMem\<close> (elevation, gradient, simulation time);
  \<^verbatim>\<open>ds_aggregator\<close> and \<^verbatim>\<open>iter_time_step\<close> are declared on lines 99 and 101.
  \<^verbatim>\<open>value_type\<close> is declared in a header that is not part of the sources: it is the
  type parameter \<open>'v\<close>, with the arithmetic of its type classes.
\<close>

record 'v data =
  h :: "'v list"
  g :: "'v list"
  t :: 'v
  ds_aggregator :: 'v
  iter_time_step :: 'v

text \<open>
  Modelled from the spec: the header \<^verbatim>\<open>MountainRangeSharedMem.hpp\<close> with
  \<^verbatim>\<open>divided_cell_range\<close>, \<^verbatim>\<open>ds_section\<close>, \<^verbatim>\<open>update_h_section\<close> and
  \<^verbatim>\<open>update_g_section\<close> is missing from the sources. They are parameters of the model,
  typed as the spec describes them: the partition oracle maps a domain size, a worker
  index and a worker count to a half-open range; the metric of a range is computed from
  the fields; the elevation update of a range with a time step gives the new elevation
  field; the gradient update of a range gives the new gradient field.
\<close>

record 'v grid_model =
  divided_cell_range :: "nat \<Rightarrow> nat \<Rightarrow> nat \<Rightarrow> nat \<times> nat"
  ds_section :: "nat \<Rightarrow> nat \<Rightarrow> 'v list \<Rightarrow> 'v list \<Rightarrow> 'v"
  update_h_section :: "nat \<Rightarrow> nat \<Rightarrow> 'v \<Rightarrow> 'v list \<Rightarrow> 'v list \<Rightarrow> 'v list"
  update_g_section :: "nat \<Rightarrow> nat \<Rightarrow> 'v list \<Rightarrow> 'v list \<Rightarrow> 'v list"

type_synonym 'v closure = "(nat, nat \<times> nat, 'v data) instr list"

text \<open>The statements of the closures and of the per-thread helpers.\<close>

definition range_act :: "'v grid_model \<Rightarrow> nat \<Rightarrow> nat \<Rightarrow> nat \<times> nat \<Rightarrow> 'v data \<Rightarrow> (nat \<times> nat) \<times> 'v data" where
  "range_act gm n tid l m = (divided_cell_range gm (length (h m)) tid n, m)"

definition ds_act :: "'v::plus grid_model \<Rightarrow> nat \<Rightarrow> nat \<times> nat \<Rightarrow> 'v data \<Rightarrow> (nat \<times> nat) \<times> 'v data" where
  "ds_act gm tid l m =
     (l, m\<lparr>ds_aggregator := ds_aggregator m + ds_section gm (fst l) (snd l) (h m) (g m)\<rparr>)"

definition update_h_act :: "'v grid_model \<Rightarrow> nat \<Rightarrow> nat \<times> nat \<Rightarrow> 'v data \<Rightarrow> (nat \<times> nat) \<times> 'v data" where
  "update_h_act gm tid l m =
     (l, m\<lparr>h := update_h_section gm (fst l) (snd l) (iter_time_step m) (h m) (g m)\<rparr>)"

definition update_g_act :: "'v grid_model \<Rightarrow> nat \<Rightarrow> nat \<times> nat \<Rightarrow> 'v data \<Rightarrow> (nat \<times> nat) \<times> 'v data" where
  "update_g_act gm tid l m = (l, m\<lparr>g := update_g_section gm (fst l) (snd l) (h m) (g m)\<rparr>)"

text \<open>The closure given to \<^verbatim>\<open>ds_workers\<close> (lines 124 to 131).\<close>

definition ds_closure :: "'v::plus grid_model \<Rightarrow> nat \<Rightarrow> 'v closure" where
  "ds_closure gm n = [Act (range_act gm n), Arrive_and_wait, Act (ds_act gm), Arrive_and_wait]"

text \<open>The closure given to \<^verbatim>\<open>step_workers\<close> (lines 132 to 141).\<close>

definition step_closure :: "'v grid_model \<Rightarrow> nat \<Rightarrow> 'v closure" where
  "step_closure gm n =
     [Act (range_act gm n), Arrive_and_wait, Act (update_h_act gm), Arrive_and_wait,
      Act (update_g_act gm), Arrive_and_wait]"

text \<open>The private helpers \<^verbatim>\<open>ds_this_thread\<close> and \<^verbatim>\<open>step_this_thread\<close> (lines 106 to 117).\<close>

definition ds_this_thread :: "'v::plus grid_model \<Rightarrow> nat \<Rightarrow> 'v closure" where
  "ds_this_thread gm n = [Act (range_act gm n), Act (ds_act gm), Arrive_and_wait]"

definition step_this_thread :: "'v grid_model \<Rightarrow> nat \<Rightarrow> 'v closure" where
  "step_this_thread gm n =
     [Act (range_act gm n), Act (update_h_act gm), Arrive_and_wait, Act (update_g_act gm)]"

text \<open>
  The object: \<^verbatim>\<open>nthreads\<close>, the two pools, the two barriers, and the shared data.
\<close>

record 'v stepper =
  nthreads :: nat
  ds_workers :: "(nat, nat \<times> nat) pool"
  step_workers :: "(nat, nat \<times> nat) pool"
  ds_barrier :: barrier
  step_barrier :: barrier
  data :: "'v data"

text \<open>
  While the caller is inside \<^verbatim>\<open>step_workers.trigger_sync()\<close> the system is the update
  pool, its barrier and the shared data, with \<^verbatim>\<open>iter_time_step\<close> already assigned
  (line 156); \<open>step_run\<close> is its configuration after a schedule.
\<close>

definition step_start :: "'v \<Rightarrow> 'v stepper \<Rightarrow> (nat, nat \<times> nat, 'v data) config" where
  "step_start time_step s =
     run_config (step_workers s) (step_barrier s) ((data s)\<lparr>iter_time_step := time_step\<rparr>)
       trigger_sync"

definition step_run ::
  "'v grid_model \<Rightarrow> thread list \<Rightarrow> 'v \<Rightarrow> 'v stepper \<Rightarrow> (nat, nat \<times> nat, 'v data) config option" where
  "step_run gm sch time_step s =
     exec (step_closure gm (nthreads s)) sch (step_start time_step s)"

text \<open>
  \<^verbatim>\<open>value_type step(value_type time_step)\<close> (lines 155 to 160) under a schedule of the
  threads: the result is the returned time and the object afterwards, \<open>None\<close> when the
  schedule is not one the system can follow or does not end with the return from
  \<^verbatim>\<open>trigger_sync()\<close>.
\<close>

definition step ::
  "'v::plus grid_model \<Rightarrow> thread list \<Rightarrow> 'v \<Rightarrow> 'v stepper \<Rightarrow> ('v \<times> 'v stepper) option" where
  "step gm sch time_step s =
     (case step_run gm sch time_step s of
        None \<Rightarrow> None
      | Some c \<Rightarrow>
          if returned c
          then Some (t (mem c) + time_step,
                     s\<lparr>step_workers := pool_of c, step_barrier := bar c,
                       data := (mem c)\<lparr>t := t (mem c) + time_step\<rparr>\<rparr>)
          else None)"

text \<open>\<^verbatim>\<open>value_type dsteepness()\<close> (lines 149 to 153), in the same way.\<close>

definition ds_start :: "'v::zero stepper \<Rightarrow> (nat, nat \<times> nat, 'v data) config" where
  "ds_start s =
     run_config (ds_workers s) (ds_barrier s) ((data s)\<lparr>ds_aggregator := 0\<rparr>) trigger_sync"

definition ds_run ::
  "'v::{zero,plus} grid_model \<Rightarrow> thread list \<Rightarrow> 'v stepper \<Rightarrow> (nat, nat \<times> nat, 'v data) config option" where
  "ds_run gm sch s = exec (ds_closure gm (nthreads s)) sch (ds_start s)"

definition dsteepness ::
  "'v::{semiring_1,inverse} grid_model \<Rightarrow> thread list \<Rightarrow> 'v stepper \<Rightarrow> ('v \<times> 'v stepper) option" where
  "dsteepness gm sch s =
     (case ds_run gm sch s of
        None \<Rightarrow> None
      | Some c \<Rightarrow>
          if returned c
          then Some (ds_aggregator (mem c) / of_nat (length (h (mem c))),
                     s\<lparr>ds_workers := pool_of c, ds_barrier := bar c, data := mem c\<rparr>)
          else None)"

text \<open>
  The constructor (lines 123 to 144): the base class has set up \<open>d\<close>; \<^verbatim>\<open>nthreads\<close> is read
  from the environment (line 97); both pools get the arguments \<^verbatim>\<open>iota(0, nthreads)\<close>
  and both barriers expect \<^verbatim>\<open>nthreads\<close> arrivals; the body is \<^verbatim>\<open>step(0)\<close>.
\<close>

definition constructed :: "nat \<Rightarrow> 'v data \<Rightarrow> 'v stepper" where
  "constructed n d =
     \<lparr>nthreads = n,
      ds_workers = new_pool (0, 0) [0..<n], step_workers = new_pool (0, 0) [0..<n],
      ds_barrier = new_barrier n, step_barrier = new_barrier n,
      data = d\<rparr>"

definition MountainRangeThreaded ::
  "'v::{zero,plus} grid_model \<Rightarrow> string option \<Rightarrow> size_t \<Rightarrow> 'v data \<Rightarrow> thread list \<Rightarrow> 'v stepper option" where
  "MountainRangeThreaded gm solver_num_threads uninit d sch =
     map_option snd
       (step gm sch 0 (constructed (unat (getenv_as_size_t solver_num_threads 1 uninit)) d))"

section \<open>Measures and invariants of the pool\<close>

text \<open>
  The definitions of this section are not part of the program: they are the termination
  measure and the invariants used in the proofs.
\<close>

fun icost :: "('a, 'l, 'm) instr \<Rightarrow> nat" where
  "icost Arrive_and_wait = 2"
| "icost (Act a) = 1"

definition rcost :: "('a, 'l, 'm) instr list \<Rightarrow> nat \<Rightarrow> nat" where
  "rcost F k = sum_list (map icost (drop k F)) + 2"

fun wcost :: "('a, 'l, 'm) instr list \<Rightarrow> wpc \<Rightarrow> nat" where
  "wcost F W_acquire = 0"
| "wcost F W_check = Suc (rcost F 0)"
| "wcost F (W_run k) = rcost F k"
| "wcost F (W_wait k p) = Suc (rcost F (Suc k))"
| "wcost F W_release = 1"
| "wcost F W_exited = 0"

definition full_cost :: "('a, 'l, 'm) instr list \<Rightarrow> nat" where
  "full_cost F = Suc (Suc (rcost F 0))"

fun call_cost :: "nat \<Rightarrow> nat \<Rightarrow> call \<Rightarrow> nat" where
  "call_cost fc n Trigger = 3 + n * fc"
| "call_cost fc n Sync = n + 4"
| "call_cost fc n Request_stop = n + 2"
| "call_cost fc n Join = n + 2"

fun cpc_cost :: "nat \<Rightarrow> nat \<Rightarrow> cpc \<Rightarrow> nat" where
  "cpc_cost fc n C_idle = 0"
| "cpc_cost fc n C_release = 2 + n * fc"
| "cpc_cost fc n C_unsync = 1"
| "cpc_cost fc n C_check = n + 3"
| "cpc_cost fc n (C_acquire k) = (n - k) + 2"
| "cpc_cost fc n C_set = 1"
| "cpc_cost fc n (C_stop k) = (n - k) + 1"
| "cpc_cost fc n (C_join k) = (n - k) + 1"

definition cost :: "('a, 'l, 'm) instr list \<Rightarrow> ('a, 'l, 'm) config \<Rightarrow> nat" where
  "cost F c =
     start_sem c * full_cost F
     + sum_list (map (\<lambda>w. wcost F (wpc w)) (workers c))
     + cpc_cost (full_cost F) (length (workers c)) (cpc c)
     + sum_list (map (call_cost (full_cost F) (length (workers c))) (calls c))"

fun is_barrier :: "('a, 'l, 'm) instr \<Rightarrow> bool" where
  "is_barrier Arrive_and_wait = True"
| "is_barrier (Act a) = False"

definition nb :: "('a, 'l, 'm) instr list \<Rightarrow> nat \<Rightarrow> nat" where
  "nb F k = length (filter is_barrier (take k F))"

definition nbar :: "('a, 'l, 'm) instr list \<Rightarrow> nat" where
  "nbar F = length (filter is_barrier F)"

definition count_wpc :: "(wpc \<Rightarrow> bool) \<Rightarrow> ('a, 'l) worker list \<Rightarrow> nat" where
  "count_wpc P ws = length (filter (\<lambda>w. P (wpc w)) ws)"

fun waiting_at :: "nat \<Rightarrow> wpc \<Rightarrow> bool" where
  "waiting_at P (W_wait k p) = (p = P)"
| "waiting_at P _ = False"

fun ok_wpc :: "('a, 'l, 'm) instr list \<Rightarrow> nat \<Rightarrow> nat \<Rightarrow> wpc \<Rightarrow> bool" where
  "ok_wpc F P e W_acquire = (e = 0 \<or> e = nbar F)"
| "ok_wpc F P e W_check = (e = 0)"
| "ok_wpc F P e (W_run k) = (k \<le> length F \<and> nb F k = e)"
| "ok_wpc F P e (W_wait k p) =
     (k < length F \<and> is_barrier (F ! k) \<and>
      ((p = P \<and> nb F k = e) \<or> (Suc p = P \<and> Suc (nb F k) = e)))"
| "ok_wpc F P e W_release = (e = nbar F)"
| "ok_wpc F P e W_exited = False"

definition iteration ::
  "('a, 'l, 'm) instr list \<Rightarrow> nat \<Rightarrow> nat \<Rightarrow> ('a, 'l, 'm) config \<Rightarrow> bool" where
  "iteration F e k c \<longleftrightarrow>
     e \<le> nbar F \<and>
     (\<forall>j < length (workers c).
        \<not> stop_requested (workers c ! j) \<and> ok_wpc F (phase (bar c)) e (wpc (workers c ! j))) \<and>
     arrived (bar c) = count_wpc (waiting_at (phase (bar c))) (workers c) \<and>
     (arrived (bar c) < length (workers c) \<or> workers c = []) \<and>
     start_sem c = (if e = 0 then count_wpc (\<lambda>q. q = W_acquire) (workers c) else 0) \<and>
     finish_sem c + k = (if e = nbar F then count_wpc (\<lambda>q. q = W_acquire) (workers c) else 0)"

definition quiescent :: "('a, 'l, 'm) config \<Rightarrow> bool" where
  "quiescent c \<longleftrightarrow>
     (\<forall>j < length (workers c). wpc (workers c ! j) = W_acquire) \<and>
     start_sem c = 0 \<and> finish_sem c = 0 \<and> arrived (bar c) = 0"

definition exiting :: "nat \<Rightarrow> ('a, 'l, 'm) config \<Rightarrow> bool" where
  "exiting n c \<longleftrightarrow>
     (\<forall>j < length (workers c).
        stop_requested (workers c ! j) \<and>
        (wpc (workers c ! j) = W_acquire \<or> wpc (workers c ! j) = W_check \<or>
         wpc (workers c ! j) = W_exited) \<and>
        (j < n \<longrightarrow> wpc (workers c ! j) = W_exited)) \<and>
     start_sem c = count_wpc (\<lambda>q. q = W_acquire) (workers c) \<and>
     finish_sem c = 0 \<and> arrived (bar c) = 0"

datatype mode = Quiet | Iter nat | Exit nat

fun mode_ok :: "('a, 'l, 'm) instr list \<Rightarrow> mode \<Rightarrow> ('a, 'l, 'm) config \<Rightarrow> bool" where
  "mode_ok F Quiet c = quiescent c"
| "mode_ok F (Iter k) c = (\<exists>e. iteration F e k c)"
| "mode_ok F (Exit n) c = exiting n c"

fun conforms :: "bool \<Rightarrow> call list \<Rightarrow> bool" where
  "conforms sy [] = True"
| "conforms sy (Trigger # cs) = (sy \<and> conforms False cs)"
| "conforms sy (Sync # cs) = conforms True cs"
| "conforms sy (Request_stop # cs) = (sy \<and> cs = [Trigger, Join])"
| "conforms sy (Join # cs) = False"

definition nostop :: "('a, 'l, 'm) config \<Rightarrow> bool" where
  "nostop c = (\<forall>j < length (workers c). \<not> stop_requested (workers c ! j))"

definition allstop :: "('a, 'l, 'm) config \<Rightarrow> bool" where
  "allstop c = (\<forall>j < length (workers c). stop_requested (workers c ! j))"

definition stops_upto :: "nat \<Rightarrow> ('a, 'l, 'm) config \<Rightarrow> bool" where
  "stops_upto k c = (\<forall>j < length (workers c). stop_requested (workers c ! j) \<longleftrightarrow> j < k)"

definition caller_ok :: "mode \<Rightarrow> ('a, 'l, 'm) config \<Rightarrow> bool" where
  "caller_ok md c =
     (case cpc c of
        C_idle \<Rightarrow>
          (md = Quiet \<and> synced c \<and>
             ((nostop c \<and> conforms True (calls c)) \<or> (allstop c \<and> calls c = [Trigger, Join])))
          \<or> (md = Iter 0 \<and> \<not> synced c \<and> conforms False (calls c))
          \<or> (md = Exit 0 \<and> \<not> synced c \<and> calls c = [Join])
          \<or> (md = Exit (length (workers c)) \<and> \<not> synced c \<and> calls c = [])
      | C_release \<Rightarrow>
          md = Quiet \<and> synced c \<and>
            ((nostop c \<and> conforms False (calls c)) \<or> (allstop c \<and> calls c = [Join]))
      | C_unsync \<Rightarrow>
          (md = Iter 0 \<and> conforms False (calls c)) \<or> (md = Exit 0 \<and> calls c = [Join])
      | C_check \<Rightarrow>
          conforms True (calls c) \<and> (if synced c then md = Quiet \<and> nostop c else md = Iter 0)
      | C_acquire k \<Rightarrow> md = Iter k \<and> \<not> synced c \<and> conforms True (calls c)
      | C_set \<Rightarrow> md = Quiet \<and> nostop c \<and> conforms True (calls c)
      | C_stop k \<Rightarrow> md = Quiet \<and> synced c \<and> stops_upto k c \<and> calls c = [Trigger, Join]
      | C_join k \<Rightarrow> md = Exit k \<and> \<not> synced c \<and> calls c = [])"

definition pool_inv :: "('a, 'l, 'm) instr list \<Rightarrow> ('a, 'l, 'm) config \<Rightarrow> bool" where
  "pool_inv F c \<longleftrightarrow>
     expected (bar c) = length (workers c) \<and> 0 < nbar F \<and>
     (\<exists>md. mode_ok F md c \<and> caller_ok md c)"

text \<open>
  Worker \<open>i\<close> is about to arrive at the barrier as the last of its phase; the number of
  completed barriers after a step of worker \<open>i\<close>.
\<close>

definition last_arrival :: "('a, 'l, 'm) instr list \<Rightarrow> nat \<Rightarrow> ('a, 'l, 'm) config \<Rightarrow> bool" where
  "last_arrival F i c \<longleftrightarrow>
     (\<exists>n. wpc (workers c ! i) = W_run n \<and> n < length F \<and> is_barrier (F ! n)) \<and>
     Suc (arrived (bar c)) = expected (bar c)"

definition next_epoch :: "('a, 'l, 'm) instr list \<Rightarrow> nat \<Rightarrow> ('a, 'l, 'm) config \<Rightarrow> nat \<Rightarrow> nat" where
  "next_epoch F i c e = (if last_arrival F i c then Suc e else e)"

subsection \<open>The flag at the return of the last call\<close>

fun final_synced :: "bool \<Rightarrow> call list \<Rightarrow> bool" where
  "final_synced b [] = b"
| "final_synced b (Trigger # cs) = final_synced False cs"
| "final_synced b (Sync # cs) = final_synced True cs"
| "final_synced b (Request_stop # cs) = final_synced b cs"
| "final_synced b (Join # cs) = final_synced b cs"

definition pending_synced :: "('a, 'l, 'm) config \<Rightarrow> bool" where
  "pending_synced c =
     final_synced
       (case cpc c of
          C_release \<Rightarrow> False | C_unsync \<Rightarrow> False
        | C_check \<Rightarrow> True | C_acquire k \<Rightarrow> True | C_set \<Rightarrow> True
        | _ \<Rightarrow> synced c)
       (calls c)"

definition pool_ok :: "('a, 'l) pool \<Rightarrow> barrier \<Rightarrow> bool" where
  "pool_ok p b \<longleftrightarrow>
     (\<forall>j < length (workers p).
        wpc (workers p ! j) = W_acquire \<and> \<not> stop_requested (workers p ! j)) \<and>
     start_sem p = 0 \<and> finish_sem p = 0 \<and> synced p \<and>
     expected b = length (workers p) \<and> arrived b = 0"

definition stepper_ok :: "'v stepper \<Rightarrow> bool" where
  "stepper_ok s \<longleftrightarrow>
     pool_ok (ds_workers s) (ds_barrier s) \<and> pool_ok (step_workers s) (step_barrier s) \<and>
     length (workers (ds_workers s)) = nthreads s \<and>
     length (workers (step_workers s)) = nthreads s \<and>
     (\<forall>j < nthreads s. warg (workers (ds_workers s) ! j) = j \<and>
                        warg (workers (step_workers s) ! j) = j)"

definition same_shape :: "('a, 'l, 'm) config \<Rightarrow> ('a, 'l, 'm) config \<Rightarrow> bool" where
  "same_shape c c' \<longleftrightarrow>
     length (workers c') = length (workers c) \<and> expected (bar c') = expected (bar c) \<and>
     (\<forall>j < length (workers c). warg (workers c' ! j) = warg (workers c ! j))"

text \<open>A property of the shared memory that every action of \<open>F\<close> keeps is kept by every run.\<close>

definition acts_keep :: "('a, 'l, 'm) instr list \<Rightarrow> ('m \<Rightarrow> bool) \<Rightarrow> bool" where
  "acts_keep F P \<longleftrightarrow>
     (\<forall>k < length F. \<forall>a. F ! k = Act a \<longrightarrow> (\<forall>x l m. P m \<longrightarrow> P (snd (a x l m))))"

text \<open>Successive calls of \<^verbatim>\<open>step\<close>, each with its schedule and its time step.\<close>

fun steps :: "'v::plus grid_model \<Rightarrow> (thread list \<times> 'v) list \<Rightarrow> 'v stepper \<Rightarrow> 'v stepper option" where
  "steps gm [] s = Some s"
| "steps gm (x # xs) s =
     (case step gm (fst x) (snd x) s of None \<Rightarrow> None | Some rs \<Rightarrow> steps gm xs (snd rs))"

text \<open>An example: four cells, a balanced partition, finite differences.\<close>

definition example_model :: "real grid_model" where
  "example_model =
     \<lparr>divided_cell_range = (\<lambda>S i N. (i * S div N, Suc i * S div N)),
      ds_section = (\<lambda>first last hh gg. sum_list (take (last - first) (drop first gg))),
      update_h_section = (\<lambda>first last dt hh gg.
         map (\<lambda>c. if first \<le> c \<and> c < last then hh ! c + dt * gg ! c else hh ! c) [0..<length hh]),
      update_g_section = (\<lambda>first last hh gg.
         map (\<lambda>c. if first \<le> c \<and> c < last then hh ! (Suc c mod length hh) - hh ! c else gg ! c)
           [0..<length gg])\<rparr>"

definition example_data :: "real data" where
  "example_data = \<lparr>h = [1, 5, 2, 7], g = [4, -3, 5, -6], t = 10, ds_aggregator = 99, iter_time_step = 0\<rparr>"

definition example_stepper :: "real stepper" where
  "example_stepper = constructed 2 example_data"

definition step_schedule :: "thread list" where
  "step_schedule =
     [Caller, Caller, Worker 1, Worker 0, Caller, Worker 1, Caller, Worker 0, Worker 1, Caller,
      Worker 1, Worker 0, Worker 0, Worker 0, Worker 1, Worker 1, Worker 1, Worker 0, Worker 0,
      Worker 1, Worker 1, Worker 1, Worker 0, Worker 0, Worker 1, Worker 1, Worker 1, Caller,
      Worker 0, Caller, Caller, Caller]"


definition ds_schedule :: "thread list" where
  "ds_schedule =
     [Caller, Caller, Caller, Worker 0, Worker 1, Caller, Caller, Worker 0, Worker 1, Worker 1,
      Worker 0, Worker 1, Worker 0, Worker 1, Worker 1, Worker 0, Worker 1, Worker 0, Worker 1,
      Worker 1, Worker 0, Worker 1, Caller, Worker 0, Caller, Caller, Caller]"

text \<open>
  What a worker does that the rest of the system can observe: it wakes from the start
  signal, leaves its loop, invokes \<^verbatim>\<open>F(arg)\<close>, or increments the finish signal.
\<close>

datatype wevent = Wake | Exit_loop | Invoke | Finish

definition event_at :: "('a, 'l) worker \<Rightarrow> wevent list" where
  "event_at w =
     (case wpc w of
        W_acquire \<Rightarrow> [Wake]
      | W_check \<Rightarrow> [if stop_requested w then Exit_loop else Invoke]
      | W_release \<Rightarrow> [Finish]
      | _ \<Rightarrow> [])"

text \<open>The events of worker \<open>i\<close> along a schedule, in order.\<close>

fun events ::
  "('a, 'l, 'm) instr list \<Rightarrow> nat \<Rightarrow> thread list \<Rightarrow> ('a, 'l, 'm) config \<Rightarrow> wevent list" where
  "events F i [] c = []"
| "events F i (th # sch) c =
     (case thread_step F th c of
        None \<Rightarrow> []
      | Some c' \<Rightarrow> (if th = Worker i then event_at (workers c ! i) else []) @ events F i sch c')"




definition destroy_schedule :: "thread list" where
  "destroy_schedule =
     [Caller, Caller, Caller, Caller, Caller, Caller, Worker 1, Caller, Worker 0, Worker 0,
      Worker 1, Caller, Caller, Caller, Caller]"

definition example_destroy :: "(nat, nat \<times> nat, real data) config" where
  "example_destroy =
     run_config (step_workers example_stepper) (step_barrier example_stepper) example_data destroy"

text \<open>
  The configurations of a pool during its destruction, stage by stage: the memory and
  the finish signal stay as they are; the workers stay parked until the start signal is
  released, and from then on each is parked, woken or gone.
\<close>

definition destroying :: "'m \<Rightarrow> ('a, 'l, 'm) config \<Rightarrow> bool" where
  "destroying m c \<longleftrightarrow>
     mem c = m \<and> finish_sem c = 0 \<and>
     (case cpc c of
        C_idle \<Rightarrow>
          (calls c = destroy \<and> quiescent c)
          \<or> (calls c = [Trigger, Join] \<and> quiescent c \<and> allstop c)
          \<or> (calls c = [Join] \<and> exiting 0 c \<and> \<not> synced c)
          \<or> (calls c = [] \<and> exiting (length (workers c)) c \<and> \<not> synced c)
      | C_stop k \<Rightarrow>
          calls c = [Trigger, Join] \<and> quiescent c \<and>
          (\<forall>j < length (workers c). j < k \<longrightarrow> stop_requested (workers c ! j))
      | C_release \<Rightarrow> calls c = [Join] \<and> quiescent c \<and> allstop c
      | C_unsync \<Rightarrow> calls c = [Join] \<and> exiting 0 c
      | C_join k \<Rightarrow> calls c = [] \<and> exiting k c \<and> \<not> synced c
      | _ \<Rightarrow> False)"

text \<open>
  The configurations of a pool during \<^verbatim>\<open>trigger_sync()\<close>: before the start signal is
  released every worker is parked; from the release on an iteration is under way, with
  \<open>e\<close> completed barrier phases.
\<close>

definition ts_before :: "('a, 'l, 'm) config \<Rightarrow> bool" where
  "ts_before c \<longleftrightarrow>
     quiescent c \<and> nostop c \<and> synced c \<and> expected (bar c) = length (workers c) \<and>
     ((cpc c = C_idle \<and> calls c = [Trigger, Sync]) \<or> (cpc c = C_release \<and> calls c = [Sync]))"

definition ts_running :: "('a, 'l, 'm) instr list \<Rightarrow> nat \<Rightarrow> ('a, 'l, 'm) config \<Rightarrow> bool" where
  "ts_running F e c \<longleftrightarrow>
     (\<exists>k. iteration F e k c) \<and> expected (bar c) = length (workers c) \<and>
     (case cpc c of
        C_unsync \<Rightarrow> calls c = [Sync]
      | C_idle \<Rightarrow> (calls c = [Sync] \<and> \<not> synced c) \<or> (calls c = [] \<and> synced c)
      | C_check \<Rightarrow> calls c = [] \<and> \<not> synced c
      | C_acquire k \<Rightarrow> calls c = []
      | C_set \<Rightarrow> calls c = []
      | _ \<Rightarrow> False)"

text \<open>The events a worker at a control point has produced since the release.\<close>

fun events_so_far :: "nat \<Rightarrow> wpc \<Rightarrow> wevent list" where
  "events_so_far e W_acquire = (if e = 0 then [] else [Wake, Invoke, Finish])"
| "events_so_far e W_check = [Wake]"
| "events_so_far e (W_run k) = [Wake, Invoke]"
| "events_so_far e (W_wait k p) = [Wake, Invoke]"
| "events_so_far e W_release = [Wake, Invoke]"
| "events_so_far e W_exited = []"

text \<open>
  Integer-valued binary64 numbers, for the rounding of \<^verbatim>\<open>value_type\<close> when it is
  \<^verbatim>\<open>double\<close>: an integer of magnitude below \<open>2\<^sup>5\<^sup>3\<close> is a binary64 number, and a larger
  one is rounded to 53 significant bits, to the nearest, a tie to the even significand
  (the overflow beyond the largest finite number is left out).
\<close>

function ulp_exponent :: "nat \<Rightarrow> nat" where
  "ulp_exponent m = (if m < 2 ^ 53 then 0 else Suc (ulp_exponent (m div 2)))"
  by pat_completeness auto

termination
  by (relation "measure id") auto

declare ulp_exponent.simps [simp del]

definition round_binary64 :: "int \<Rightarrow> int" where
  "round_binary64 x =
     (let m = nat \<bar>x\<bar>; u = 2 ^ ulp_exponent m; q = m div u; r = m mod u
      in sgn x * int (u * (if u < 2 * r \<or> (2 * r = u \<and> odd q) then Suc q else q)))"

datatype binary64 = Binary64 int

instantiation binary64 :: plus
begin
definition plus_binary64 :: "binary64 \<Rightarrow> binary64 \<Rightarrow> binary64" where
  "plus_binary64 x y =
     (case x of Binary64 a \<Rightarrow> (case y of Binary64 b \<Rightarrow> Binary64 (round_binary64 (a + b))))"
instance ..
end



text \<open>The events of a worker that leaves its loop, by the control point it has reached.\<close>

fun events_leaving :: "wpc \<Rightarrow> wevent list" where
  "events_leaving W_check = [Wake]"
| "events_leaving W_exited = [Wake, Exit_loop]"
| "events_leaving q = []"

text \<open>
  What a pool has outstanding: the start permits not yet taken, the workers that have
  taken one and have not come back to the start signal, and the finish increments not
  yet consumed.
\<close>

definition outstanding :: "('a, 'l, 'm) config \<Rightarrow> nat" where
  "outstanding c =
     start_sem c + count_wpc (\<lambda>q. q \<noteq> W_acquire) (workers c) + finish_sem c"

text \<open>
  The call sequences in which no \<^verbatim>\<open>trigger()\<close> follows another without a \<^verbatim>\<open>sync()\<close>
  in between, given whether the pool is synced at the start.
\<close>

fun paired :: "bool \<Rightarrow> call list \<Rightarrow> bool" where
  "paired sy [] = True"
| "paired sy (Trigger # cs) = (sy \<and> paired False cs)"
| "paired sy (Sync # cs) = paired True cs"
| "paired sy (Request_stop # cs) = paired sy cs"
| "paired sy (Join # cs) = paired sy cs"

text \<open>The flag and the outstanding work at each control point of the caller.\<close>

definition flag_inv :: "('a, 'l, 'm) config \<Rightarrow> bool" where
  "flag_inv c \<longleftrightarrow>
     (case cpc c of
        C_release \<Rightarrow> synced c \<and> paired False (calls c) \<and> outstanding c = 0
      | C_unsync \<Rightarrow> paired False (calls c) \<and> outstanding c = length (workers c)
      | C_check \<Rightarrow>
          paired True (calls c) \<and>
          outstanding c = (if synced c then 0 else length (workers c))
      | C_acquire k \<Rightarrow>
          \<not> synced c \<and> paired True (calls c) \<and> outstanding c + k = length (workers c)
      | C_set \<Rightarrow> paired True (calls c) \<and> outstanding c = 0
      | _ \<Rightarrow>
          paired (synced c) (calls c) \<and>
          outstanding c = (if synced c then 0 else length (workers c)))"

text \<open>A run of \<^verbatim>\<open>trigger(); sync(); sync();\<close> on a new pool of two workers.\<close>

definition sync_twice_schedule :: "thread list" where
  "sync_twice_schedule =
     [Caller, Caller, Worker 0, Worker 1, Caller, Worker 0, Worker 1, Caller, Caller, Worker 1,
      Worker 1, Worker 0, Worker 0, Worker 0, Worker 1, Worker 1, Worker 0, Worker 1, Worker 0,
      Worker 1, Worker 1, Worker 0, Worker 0, Worker 0, Worker 1, Worker 1, Worker 0, Caller,
      Worker 1, Caller, Caller, Caller, Caller, Caller]"

definition sync_twice_start :: "(nat, nat \<times> nat, real data) config" where
  "sync_twice_start =
     run_config (new_pool (0, 0) [0, 1]) (new_barrier 2) example_data [Trigger, Sync, Sync]"

text \<open>
  The functions and lambda expressions of the source file, and for each of them the ones
  of the file that its body calls or starts: the pool's constructor starts the worker
  loop (line 33), which calls the bound function (line 37), one of the two closures of
  lines 124 and 132; the pool's destructor calls \<^verbatim>\<open>trigger()\<close> (line 52);
  \<^verbatim>\<open>trigger_sync()\<close> calls \<^verbatim>\<open>trigger()\<close> and \<^verbatim>\<open>sync()\<close>; the constructor of
  \<^verbatim>\<open>MountainRangeThreaded\<close> calls \<^verbatim>\<open>getenv_as_size_t\<close> (line 97), the constructors of
  the two pools and \<^verbatim>\<open>step\<close> (line 143); its implicit destructor calls the destructors
  of the two pools; \<^verbatim>\<open>dsteepness\<close> and \<^verbatim>\<open>step\<close> call \<^verbatim>\<open>trigger_sync()\<close>. The closures
  and the two private helpers call functions of the base class and of the barrier only.
\<close>

datatype routine =
  R_pool_constructor | R_worker_loop | R_pool_destructor | R_size | R_sync | R_trigger
  | R_trigger_sync | R_getenv_as_size_t | R_ds_this_thread | R_step_this_thread
  | R_constructor | R_ds_closure | R_step_closure | R_destructor | R_dsteepness | R_step

fun callees :: "routine \<Rightarrow> routine list" where
  "callees R_pool_constructor = [R_worker_loop]"
| "callees R_worker_loop = [R_ds_closure, R_step_closure]"
| "callees R_pool_destructor = [R_trigger]"
| "callees R_trigger_sync = [R_trigger, R_sync]"
| "callees R_constructor =
     [R_getenv_as_size_t, R_pool_constructor, R_pool_constructor, R_step]"
| "callees R_destructor = [R_pool_destructor, R_pool_destructor]"
| "callees R_dsteepness = [R_trigger_sync]"
| "callees R_step = [R_trigger_sync]"
| "callees r = []"

section \<open>Properties of \<open>getenv_as_size_t\<close>\<close>

lemma length_takeWhile_eq_iff:
  "length (takeWhile P xs) = length xs \<longleftrightarrow> (\<forall>x \<in> set xs. P x)"
  by (induction xs) auto

lemma getenv_unset: "getenv_as_size_t None d u = d"
  by (simp add: getenv_as_size_t_def)

lemma getenv_malformed_nonempty:
  assumes "v \<noteq> []" and "\<not> (\<forall>c \<in> set v. is_digit c)"
  shows "getenv_as_size_t (Some v) d u = d"
proof -
  have "length (takeWhile is_digit v) \<noteq> length v"
    using assms(2) by (simp add: length_takeWhile_eq_iff)
  moreover have "0 \<noteq> length v"
    using assms(1) by simp
  ultimately show ?thesis
    by (simp add: getenv_as_size_t_def from_chars_def Let_def)
qed

lemma getenv_malformed_examples:
  "getenv_as_size_t (Some ''4x'') 1 u = 1"
  "getenv_as_size_t (Some ''-4'') 1 u = 1"
  "getenv_as_size_t (Some '' 4'') 1 u = 1"
  "getenv_as_size_t (Some ''+4'') 1 u = 1"
  "getenv_as_size_t (Some ''four'') 1 u = 1"
  by (simp_all add: getenv_as_size_t_def from_chars_def is_digit_def Let_def)

lemma getenv_wellformed_example: "getenv_as_size_t (Some ''12'') 1 u = 12"
  by (simp add: getenv_as_size_t_def from_chars_def is_digit_def Let_def
      decimal_value_def digit_value_def)

text \<open>
  C1. The claim is that every string that is not a non-negative decimal integer, the
  empty string in particular, gives the default worker count 1. On the empty string
  \<^verbatim>\<open>from_chars\<close> parses nothing and returns the start of the string, which is also its
  end: the comparison succeeds and the function returns the never-assigned local instead
  of the default.
\<close>

theorem getenv_as_size_t_empty_string:
  "getenv_as_size_t (Some '''') 1 uninit = uninit \<and> getenv_as_size_t (Some '''') 1 0 \<noteq> 1"
  by (simp add: getenv_as_size_t_def from_chars_def)

section \<open>Properties of the pool\<close>

lemma sum_list_map_update:
  "i < length ws \<Longrightarrow> sum_list (map f (ws[i := w])) + f (ws ! i) = sum_list (map f ws) + (f w :: nat)"
proof (induction ws arbitrary: i)
  case Nil
  then show ?case by simp
next
  case (Cons a ws)
  then show ?case by (cases i) auto
qed

lemma rcost_end: "length F \<le> k \<Longrightarrow> rcost F k = 2"
  by (simp add: rcost_def)

lemma rcost_step: "k < length F \<Longrightarrow> rcost F k = icost (F ! k) + rcost F (Suc k)"
  by (simp add: rcost_def flip: Cons_nth_drop_Suc)

lemma wcost_set_wpc:
  "i < length ws \<Longrightarrow>
   sum_list (map (\<lambda>w. wcost F (wpc w)) (set_wpc i q ws)) + wcost F (wpc (ws ! i))
     = sum_list (map (\<lambda>w. wcost F (wpc w)) ws) + wcost F q"
  unfolding set_wpc_def
  using sum_list_map_update [of i ws "\<lambda>w. wcost F (wpc w)" "(ws ! i)\<lparr>wpc := q\<rparr>"] by simp

lemma length_set_wpc [simp]: "length (set_wpc i q ws) = length ws"
  by (simp add: set_wpc_def)

lemma worker_step_cost:
  assumes "worker_step F i c = Some c'"
  shows "cost F c' < cost F c"
proof -
  from assms have i: "i < length (workers c)"
    by (auto simp: worker_step_def split: if_splits)
  note upd = wcost_set_wpc [OF i, of F]
  show ?thesis
  proof (cases "wpc (workers c ! i)")
    case W_acquire
    with assms i obtain n where "start_sem c = Suc n"
      by (cases "start_sem c") (auto simp: worker_step_def)
    with assms i W_acquire upd [of W_check] show ?thesis
      by (auto simp: worker_step_def cost_def full_cost_def Let_def)
  next
    case W_check
    with assms i upd [of W_exited] upd [of "W_run 0"] show ?thesis
      by (auto simp: worker_step_def cost_def Let_def split: if_splits)
  next
    case (W_run k)
    show ?thesis
    proof (cases "length F \<le> k")
      case True
      with assms i W_run upd [of W_release] show ?thesis
        by (auto simp: worker_step_def cost_def Let_def rcost_end)
    next
      case False
      then have k: "k < length F" by simp
      show ?thesis
      proof (cases "F ! k")
        case Arrive_and_wait
        with assms i W_run k upd [of "W_run (Suc k)"] upd [of "W_wait k (phase (bar c))"]
          rcost_step [OF k]
        show ?thesis
          by (auto simp: worker_step_def cost_def Let_def split: if_splits)
      next
        case (Act a)
        obtain l' m' where a: "a (warg (workers c ! i)) (wlocal (workers c ! i)) (mem c) = (l', m')"
          by (cases "a (warg (workers c ! i)) (wlocal (workers c ! i)) (mem c)")
        from sum_list_map_update [OF i, of "\<lambda>w. wcost F (wpc w)"
              "(workers c ! i)\<lparr>wpc := W_run (Suc k), wlocal := l'\<rparr>"]
        have "sum_list (map (\<lambda>w. wcost F (wpc w))
                ((workers c)[i := (workers c ! i)\<lparr>wpc := W_run (Suc k), wlocal := l'\<rparr>]))
              + rcost F k = sum_list (map (\<lambda>w. wcost F (wpc w)) (workers c)) + rcost F (Suc k)"
          using W_run by simp
        with assms i W_run k Act a rcost_step [OF k] show ?thesis
          by (auto simp: worker_step_def cost_def Let_def)
      qed
    qed
  next
    case (W_wait k p)
    with assms i upd [of "W_run (Suc k)"] show ?thesis
      by (auto simp: worker_step_def cost_def Let_def split: if_splits)
  next
    case W_release
    with assms i upd [of W_acquire] show ?thesis
      by (auto simp: worker_step_def cost_def Let_def)
  next
    case W_exited
    with assms i show ?thesis by (auto simp: worker_step_def Let_def)
  qed
qed

lemma map_update_same:
  "f x = f (ws ! k) \<Longrightarrow> map f (ws[k := x]) = map f ws"
  by (cases "k < length ws") (simp_all add: map_update list_update_same_conv list_update_beyond)

lemma caller_step_cost:
  assumes "caller_step c = Some c'"
  shows "cost F c' < cost F c"
proof (cases "cpc c")
  case C_idle
  with assms show ?thesis
    by (auto simp: caller_step_def cost_def split: list.splits call.splits)
next
  case C_release
  with assms show ?thesis
    by (auto simp: caller_step_def cost_def algebra_simps)
next
  case C_unsync
  with assms show ?thesis by (auto simp: caller_step_def cost_def)
next
  case C_check
  with assms show ?thesis by (auto simp: caller_step_def cost_def split: if_splits)
next
  case (C_acquire k)
  with assms show ?thesis by (auto simp: caller_step_def cost_def split: if_splits)
next
  case C_set
  with assms show ?thesis by (auto simp: caller_step_def cost_def)
next
  case (C_stop k)
  have "map (\<lambda>w. wcost F (wpc w)) ((workers c)[k := (workers c ! k)\<lparr>stop_requested := True\<rparr>])
        = map (\<lambda>w. wcost F (wpc w)) (workers c)"
    by (rule map_update_same) simp
  with C_stop assms show ?thesis by (auto simp: caller_step_def cost_def split: if_splits)
next
  case (C_join k)
  with assms show ?thesis by (auto simp: caller_step_def cost_def split: if_splits)
qed

lemma thread_step_cost: "thread_step F th c = Some c' \<Longrightarrow> cost F c' < cost F c"
  by (cases th) (auto simp: thread_step_def worker_step_cost caller_step_cost)

lemma exec_cost: "exec F sch c = Some c' \<Longrightarrow> cost F c' + length sch \<le> cost F c"
proof (induction sch arbitrary: c)
  case Nil
  then show ?case by simp
next
  case (Cons th sch)
  then obtain c1 where s: "thread_step F th c = Some c1" and e: "exec F sch c1 = Some c'"
    by (auto split: option.splits)
  from Cons.IH [OF e] thread_step_cost [OF s] show ?case by simp
qed

subsection \<open>Counting\<close>

lemma filter_update_count:
  "i < length ws \<Longrightarrow>
   length (filter Q (ws[i := w])) + (if Q (ws ! i) then 1 else 0)
     = length (filter Q ws) + (if Q w then 1 else 0)"
proof (induction ws arbitrary: i)
  case Nil
  then show ?case by simp
next
  case (Cons a ws)
  then show ?case by (cases i) auto
qed

lemma count_wpc_update:
  "i < length ws \<Longrightarrow>
   count_wpc P (ws[i := w]) + (if P (wpc (ws ! i)) then 1 else 0)
     = count_wpc P ws + (if P (wpc w) then 1 else 0)"
  unfolding count_wpc_def by (rule filter_update_count)

lemma count_wpc_le: "count_wpc P ws \<le> length ws"
  by (simp add: count_wpc_def)

lemma filter_all_nth:
  "length (filter Q ws) = length ws \<Longrightarrow> j < length ws \<Longrightarrow> Q (ws ! j)"
  by (metis filter_id_conv length_filter_less linorder_neq_iff nth_mem)

lemma count_wpc_all:
  "count_wpc P ws = length ws \<Longrightarrow> j < length ws \<Longrightarrow> P (wpc (ws ! j))"
  unfolding count_wpc_def by (rule filter_all_nth)

lemma count_wpc_all_but:
  assumes "i < length ws" "\<not> P (wpc (ws ! i))" "Suc (count_wpc P ws) = length ws"
    "j < length ws" "j \<noteq> i" "P q"
  shows "P (wpc (ws ! j))"
proof -
  let ?ws = "ws[i := (ws ! i)\<lparr>wpc := q\<rparr>]"
  from count_wpc_update [OF assms(1), of P "(ws ! i)\<lparr>wpc := q\<rparr>"] assms
  have "count_wpc P ?ws = length ?ws" by simp
  from count_wpc_all [OF this, of j] assms show ?thesis by simp
qed

lemma count_wpc_none:
  "(\<And>j. j < length ws \<Longrightarrow> \<not> P (wpc (ws ! j))) \<Longrightarrow> count_wpc P ws = 0"
  unfolding count_wpc_def by (auto simp: filter_empty_conv in_set_conv_nth)

lemma count_wpc_full:
  "(\<And>j. j < length ws \<Longrightarrow> P (wpc (ws ! j))) \<Longrightarrow> count_wpc P ws = length ws"
  unfolding count_wpc_def
  by (metis filter_True in_set_conv_nth)

lemma count_wpc_cong:
  "length ws' = length ws \<Longrightarrow> (\<And>j. j < length ws \<Longrightarrow> P' (wpc (ws' ! j)) = P (wpc (ws ! j)))
   \<Longrightarrow> count_wpc P' ws' = count_wpc P ws"
proof (induction ws arbitrary: ws')
  case Nil
  then show ?case by (simp add: count_wpc_def)
next
  case (Cons a ws)
  then obtain b ws2 where ws': "ws' = b # ws2" by (cases ws') auto
  with Cons.prems(1) have len: "length ws2 = length ws" by simp
  have hd: "P' (wpc b) = P (wpc a)" using Cons.prems(2) [of 0] ws' by simp
  have "\<And>j. j < length ws \<Longrightarrow> P' (wpc (ws2 ! j)) = P (wpc (ws ! j))"
    using Cons.prems(2) ws' by (metis Suc_less_eq length_Cons nth_Cons_Suc)
  from Cons.IH [OF len this] hd ws' show ?case by (simp add: count_wpc_def)
qed

subsection \<open>Barriers passed\<close>

lemma nb_0 [simp]: "nb F 0 = 0"
  by (simp add: nb_def)

lemma nb_Suc:
  "k < length F \<Longrightarrow> nb F (Suc k) = nb F k + (if is_barrier (F ! k) then 1 else 0)"
  by (simp add: nb_def take_Suc_conv_app_nth)

lemma nb_length [simp]: "nb F (length F) = nbar F"
  by (simp add: nb_def nbar_def)

lemma nb_le_nbar: "nb F k \<le> nbar F"
proof -
  have "length (filter is_barrier (take k F)) \<le> length (filter is_barrier (take k F @ drop k F))"
    by (simp only: filter_append length_append le_add1)
  then show ?thesis by (simp add: nb_def nbar_def)
qed

lemma nb_barrier_less: "k < length F \<Longrightarrow> is_barrier (F ! k) \<Longrightarrow> nb F k < nbar F"
  using nb_Suc [of k F] nb_le_nbar [of F "Suc k"] by simp

lemma worker_step_cases [consumes 1, case_names acquire stop enter ret act last_arrival arrival pass release]:
  assumes "worker_step F i c = Some c'"
  obtains
    "i < length (workers c)" "wpc (workers c ! i) = W_acquire" "start_sem c \<noteq> 0"
      "c' = c\<lparr>workers := set_wpc i W_check (workers c), start_sem := start_sem c - 1\<rparr>"
  | "i < length (workers c)" "wpc (workers c ! i) = W_check" "stop_requested (workers c ! i)"
      "c' = c\<lparr>workers := set_wpc i W_exited (workers c)\<rparr>"
  | "i < length (workers c)" "wpc (workers c ! i) = W_check" "\<not> stop_requested (workers c ! i)"
      "c' = c\<lparr>workers := set_wpc i (W_run 0) (workers c)\<rparr>"
  | k where "i < length (workers c)" "wpc (workers c ! i) = W_run k" "length F \<le> k"
      "c' = c\<lparr>workers := set_wpc i W_release (workers c)\<rparr>"
  | k a l' m' where "i < length (workers c)" "wpc (workers c ! i) = W_run k" "k < length F"
      "F ! k = Act a"
      "a (warg (workers c ! i)) (wlocal (workers c ! i)) (mem c) = (l', m')"
      "c' = c\<lparr>workers := (workers c)[i := (workers c ! i)\<lparr>wpc := W_run (Suc k), wlocal := l'\<rparr>],
              mem := m'\<rparr>"
  | k where "i < length (workers c)" "wpc (workers c ! i) = W_run k" "k < length F"
      "F ! k = Arrive_and_wait" "Suc (arrived (bar c)) = expected (bar c)"
      "c' = c\<lparr>workers := set_wpc i (W_run (Suc k)) (workers c),
              bar := (bar c)\<lparr>arrived := 0, phase := Suc (phase (bar c))\<rparr>\<rparr>"
  | k where "i < length (workers c)" "wpc (workers c ! i) = W_run k" "k < length F"
      "F ! k = Arrive_and_wait" "Suc (arrived (bar c)) \<noteq> expected (bar c)"
      "c' = c\<lparr>workers := set_wpc i (W_wait k (phase (bar c))) (workers c),
              bar := (bar c)\<lparr>arrived := Suc (arrived (bar c))\<rparr>\<rparr>"
  | k p where "i < length (workers c)" "wpc (workers c ! i) = W_wait k p" "phase (bar c) \<noteq> p"
      "c' = c\<lparr>workers := set_wpc i (W_run (Suc k)) (workers c)\<rparr>"
  | "i < length (workers c)" "wpc (workers c ! i) = W_release"
      "c' = c\<lparr>workers := set_wpc i W_acquire (workers c), finish_sem := Suc (finish_sem c)\<rparr>"
proof -
  from assms have i: "i < length (workers c)"
    by (auto simp: worker_step_def split: if_splits)
  show ?thesis
  proof (cases "wpc (workers c ! i)")
    case W_acquire
    with assms i that(1) show ?thesis
      by (auto simp: worker_step_def Let_def split: if_splits)
  next
    case W_check
    with assms i that(2,3) show ?thesis
      by (auto simp: worker_step_def Let_def split: if_splits)
  next
    case (W_run k)
    show ?thesis
    proof (cases "length F \<le> k")
      case True
      with W_run assms i that(4) show ?thesis
        by (auto simp: worker_step_def Let_def)
    next
      case False
      show ?thesis
      proof (cases "F ! k")
        case Arrive_and_wait
        with False W_run assms i that(6,7) show ?thesis
          by (auto simp: worker_step_def Let_def split: if_splits)
      next
        case (Act a)
        with False W_run assms i that(5) [of k a] show ?thesis
          by (auto simp: worker_step_def Let_def split: prod.splits)
      qed
    qed
  next
    case (W_wait k p)
    with assms i that(8) show ?thesis
      by (auto simp: worker_step_def Let_def split: if_splits)
  next
    case W_release
    with assms i that(9) show ?thesis
      by (auto simp: worker_step_def Let_def)
  next
    case W_exited
    with assms i show ?thesis
      by (auto simp: worker_step_def Let_def)
  qed
qed

lemma nth_set_wpc:
  "i < length ws \<Longrightarrow> j < length ws \<Longrightarrow>
   wpc (set_wpc i q ws ! j) = (if j = i then q else wpc (ws ! j))"
  by (simp add: set_wpc_def nth_list_update)

lemma stop_set_wpc [simp]:
  "j < length ws \<Longrightarrow> stop_requested (set_wpc i q ws ! j) = stop_requested (ws ! j)"
  by (cases "i < length ws") (auto simp: set_wpc_def nth_list_update)

lemma count_set_wpc:
  "i < length ws \<Longrightarrow>
   count_wpc P (set_wpc i q ws) + (if P (wpc (ws ! i)) then 1 else 0)
     = count_wpc P ws + (if P q then 1 else 0)"
  unfolding set_wpc_def using count_wpc_update [of i ws P "(ws ! i)\<lparr>wpc := q\<rparr>"] by simp

lemma iteration_nth:
  "iteration F e k c \<Longrightarrow> j < length (workers c) \<Longrightarrow>
   ok_wpc F (phase (bar c)) e (wpc (workers c ! j)) \<and> \<not> stop_requested (workers c ! j)"
  by (simp add: iteration_def)

lemma is_barrier_iff: "is_barrier x \<longleftrightarrow> x = Arrive_and_wait"
  by (cases x) simp_all

lemma iteration_worker_step_epoch:
  assumes step: "worker_step F i c = Some c'"
    and it: "iteration F e k c"
    and ex: "expected (bar c) = length (workers c)"
    and B: "0 < nbar F"
  shows "iteration F (next_epoch F i c e) k c'"
  using step
proof (cases rule: worker_step_cases)
  case acquire
  note ca = count_set_wpc [OF acquire(1), of "\<lambda>q. q = W_acquire" W_check]
  note cw = count_set_wpc [OF acquire(1), of "waiting_at (phase (bar c))" W_check]
  from acquire it have e: "e = 0" by (auto simp: iteration_def split: if_splits)
  have "iteration F 0 k c'"
    using it acquire e B ca cw by (auto simp: iteration_def nth_set_wpc)
  with e acquire show ?thesis by (simp add: next_epoch_def last_arrival_def)
next
  case stop
  with iteration_nth [OF it stop(1)] show ?thesis by simp
next
  case enter
  note ca = count_set_wpc [OF enter(1), of "\<lambda>q. q = W_acquire" "W_run 0"]
  note cw = count_set_wpc [OF enter(1), of "waiting_at (phase (bar c))" "W_run 0"]
  from enter iteration_nth [OF it enter(1)] have e: "e = 0" by simp
  have "iteration F 0 k c'"
    using it enter e B ca cw by (auto simp: iteration_def nth_set_wpc)
  with e enter show ?thesis by (simp add: next_epoch_def last_arrival_def)
next
  case (ret n)
  note ca = count_set_wpc [OF ret(1), of "\<lambda>q. q = W_acquire" W_release]
  note cw = count_set_wpc [OF ret(1), of "waiting_at (phase (bar c))" W_release]
  from ret iteration_nth [OF it ret(1)] have n: "n = length F" "e = nbar F" by auto
  have "iteration F e k c'"
    using it ret n B ca cw by (auto simp: iteration_def nth_set_wpc)
  with ret show ?thesis by (simp add: next_epoch_def last_arrival_def)
next
  case (act n a l' m')
  let ?w = "(workers c ! i)\<lparr>wpc := W_run (Suc n), wlocal := l'\<rparr>"
  note ca = count_wpc_update [OF act(1), of "\<lambda>q. q = W_acquire" ?w]
  note cw = count_wpc_update [OF act(1), of "waiting_at (phase (bar c))" ?w]
  from act iteration_nth [OF it act(1)] have n: "nb F (Suc n) = e" by (auto simp: nb_Suc)
  have "iteration F e k c'"
    using it act n B ca cw by (auto simp: iteration_def nth_list_update)
  with act show ?thesis by (simp add: next_epoch_def last_arrival_def)
next
  case (last_arrival n)
  let ?P = "phase (bar c)"
  note ca = count_set_wpc [OF last_arrival(1), of "\<lambda>q. q = W_acquire" "W_run (Suc n)"]
  from last_arrival iteration_nth [OF it last_arrival(1)]
  have n: "nb F n = e" "nb F (Suc n) = Suc e" "e < nbar F"
    using nb_barrier_less [of n F] by (auto simp: nb_Suc)
  have others: "waiting_at ?P (wpc (workers c ! j))" if "j < length (workers c)" "j \<noteq> i" for j
  proof (rule count_wpc_all_but [OF last_arrival(1) _ _ that])
    show "\<not> waiting_at ?P (wpc (workers c ! i))" using last_arrival by simp
    show "Suc (count_wpc (waiting_at ?P) (workers c)) = length (workers c)"
      using it last_arrival ex by (simp add: iteration_def)
    show "waiting_at ?P (W_wait 0 ?P)" by simp
  qed
  have others': "\<exists>m. wpc (workers c ! j) = W_wait m ?P" if "j < length (workers c)" "j \<noteq> i" for j
    using others [OF that] by (cases "wpc (workers c ! j)") auto
  have na: "count_wpc (\<lambda>q. q = W_acquire) (set_wpc i (W_run (Suc n)) (workers c)) = 0"
  proof (rule count_wpc_none)
    fix j assume "j < length (set_wpc i (W_run (Suc n)) (workers c))"
    then have j: "j < length (workers c)" by simp
    show "wpc (set_wpc i (W_run (Suc n)) (workers c) ! j) \<noteq> W_acquire"
      using others' [OF j] j last_arrival(1) by (cases "j = i") (auto simp: nth_set_wpc)
  qed
  have nw: "count_wpc (waiting_at (Suc ?P)) (set_wpc i (W_run (Suc n)) (workers c)) = 0"
  proof (rule count_wpc_none)
    fix j assume "j < length (set_wpc i (W_run (Suc n)) (workers c))"
    then have j: "j < length (workers c)" by simp
    show "\<not> waiting_at (Suc ?P) (wpc (set_wpc i (W_run (Suc n)) (workers c) ! j))"
      using others' [OF j] j last_arrival(1) by (cases "j = i") (auto simp: nth_set_wpc)
  qed
  have "iteration F (Suc e) k c'"
    unfolding iteration_def
  proof (intro conjI allI impI)
    show "Suc e \<le> nbar F" using n by simp
    fix j assume j: "j < length (workers c')"
    show "\<not> stop_requested (workers c' ! j)"
      using it j last_arrival by (auto simp: iteration_def)
    show "ok_wpc F (phase (bar c')) (Suc e) (wpc (workers c' ! j))"
    proof (cases "j = i")
      case True
      with last_arrival n show ?thesis by (simp add: nth_set_wpc)
    next
      case False
      with j last_arrival others' [of j] obtain m where m: "wpc (workers c ! j) = W_wait m ?P"
        by auto
      with it j last_arrival have "ok_wpc F ?P e (W_wait m ?P)"
        by (auto simp: iteration_def)
      with False j m last_arrival show ?thesis by (simp add: nth_set_wpc)
    qed
  next
    show "arrived (bar c') = count_wpc (waiting_at (phase (bar c'))) (workers c')"
      using nw last_arrival by simp
    show "arrived (bar c') < length (workers c') \<or> workers c' = []"
      using last_arrival by auto
    show "start_sem c' = (if Suc e = 0 then count_wpc (\<lambda>q. q = W_acquire) (workers c') else 0)"
      using it last_arrival ca na n by (auto simp: iteration_def split: if_splits)
    show "finish_sem c' + k = (if Suc e = nbar F then count_wpc (\<lambda>q. q = W_acquire) (workers c') else 0)"
      using it last_arrival ca na n by (auto simp: iteration_def split: if_splits)
  qed
  with last_arrival show ?thesis by (simp add: next_epoch_def last_arrival_def)
next
  case (arrival n)
  note ca = count_set_wpc [OF arrival(1), of "\<lambda>q. q = W_acquire" "W_wait n (phase (bar c))"]
  note cw = count_set_wpc [OF arrival(1), of "waiting_at (phase (bar c))" "W_wait n (phase (bar c))"]
  note le = count_wpc_le [of "waiting_at (phase (bar c))" "set_wpc i (W_wait n (phase (bar c))) (workers c)"]
  from arrival iteration_nth [OF it arrival(1)] have n: "nb F n = e" by auto
  have "iteration F e k c'"
    using it arrival n B ca cw le ex by (auto simp: iteration_def nth_set_wpc)
  with arrival show ?thesis by (simp add: next_epoch_def last_arrival_def)
next
  case (pass n p)
  note ca = count_set_wpc [OF pass(1), of "\<lambda>q. q = W_acquire" "W_run (Suc n)"]
  note cw = count_set_wpc [OF pass(1), of "waiting_at (phase (bar c))" "W_run (Suc n)"]
  from pass iteration_nth [OF it pass(1)] have n: "n < length F" "nb F (Suc n) = e"
    by (auto simp: nb_Suc)
  have "iteration F e k c'"
    using it pass n B ca cw by (auto simp: iteration_def nth_set_wpc)
  with pass show ?thesis by (simp add: next_epoch_def last_arrival_def)
next
  case release
  note ca = count_set_wpc [OF release(1), of "\<lambda>q. q = W_acquire" W_acquire]
  note cw = count_set_wpc [OF release(1), of "waiting_at (phase (bar c))" W_acquire]
  from release iteration_nth [OF it release(1)] have e: "e = nbar F" by auto
  have "iteration F e k c'"
    using it release e B ca cw by (auto simp: iteration_def nth_set_wpc)
  with release show ?thesis by (simp add: next_epoch_def last_arrival_def)
qed

lemma iteration_worker_step:
  assumes "worker_step F i c = Some c'" "iteration F e k c"
    "expected (bar c) = length (workers c)" "0 < nbar F"
  shows "\<exists>e'. iteration F e' k c'"
  using iteration_worker_step_epoch [OF assms] by blast

lemma last_arrival_others:
  assumes it: "iteration F e k c" and ex: "expected (bar c) = length (workers c)"
    and la: "last_arrival F i c" and i: "i < length (workers c)"
    and j: "j < length (workers c)" "j \<noteq> i"
  shows "\<exists>m. wpc (workers c ! j) = W_wait m (phase (bar c))"
proof -
  let ?P = "phase (bar c)"
  from la obtain n where n: "wpc (workers c ! i) = W_run n"
    and s: "Suc (arrived (bar c)) = expected (bar c)"
    by (auto simp: last_arrival_def)
  have "waiting_at ?P (wpc (workers c ! j))"
  proof (rule count_wpc_all_but [OF i _ _ j])
    show "\<not> waiting_at ?P (wpc (workers c ! i))" using n by simp
    show "Suc (count_wpc (waiting_at ?P) (workers c)) = length (workers c)"
      using it s ex by (simp add: iteration_def)
    show "waiting_at ?P (W_wait 0 ?P)" by simp
  qed
  then show ?thesis by (cases "wpc (workers c ! j)") auto
qed

lemma quiescent_worker_step:
  assumes "quiescent c"
  shows "worker_step F i c = None"
proof (cases "i < length (workers c)")
  case True
  with assms show ?thesis by (simp add: worker_step_def quiescent_def Let_def)
next
  case False
  then show ?thesis by (simp add: worker_step_def)
qed

lemma exiting_nth:
  "exiting n c \<Longrightarrow> j < length (workers c) \<Longrightarrow>
   stop_requested (workers c ! j) \<and>
   (wpc (workers c ! j) = W_acquire \<or> wpc (workers c ! j) = W_check \<or>
    wpc (workers c ! j) = W_exited)"
  by (simp add: exiting_def)

lemma exiting_worker_step:
  assumes step: "worker_step F i c = Some c'" and ex: "exiting n c"
  shows "exiting n c'"
  using step
proof (cases rule: worker_step_cases)
  case acquire
  note ca = count_set_wpc [OF acquire(1), of "\<lambda>q. q = W_acquire" W_check]
  from acquire ex have "\<not> i < n" by (auto simp: exiting_def)
  with ex acquire ca show ?thesis by (auto simp: exiting_def nth_set_wpc)
next
  case stop
  note ca = count_set_wpc [OF stop(1), of "\<lambda>q. q = W_acquire" W_exited]
  from ex stop ca show ?thesis by (auto simp: exiting_def nth_set_wpc)
next
  case enter
  with exiting_nth [OF ex enter(1)] show ?thesis by simp
next
  case (ret k)
  with exiting_nth [OF ex ret(1)] show ?thesis by simp
next
  case (act k a l' m')
  with exiting_nth [OF ex act(1)] show ?thesis by simp
next
  case (last_arrival k)
  with exiting_nth [OF ex last_arrival(1)] show ?thesis by simp
next
  case (arrival k)
  with exiting_nth [OF ex arrival(1)] show ?thesis by simp
next
  case (pass k p)
  with exiting_nth [OF ex pass(1)] show ?thesis by simp
next
  case release
  with exiting_nth [OF ex release(1)] show ?thesis by simp
qed

lemma mode_worker_step:
  assumes "worker_step F i c = Some c'" "mode_ok F md c"
    "expected (bar c) = length (workers c)" "0 < nbar F"
  shows "mode_ok F md c'"
proof (cases md)
  case Quiet
  with assms quiescent_worker_step [of c F i] show ?thesis by simp
next
  case (Iter k)
  with assms iteration_worker_step [of F i c c' _ k] show ?thesis by auto
next
  case (Exit n)
  with assms exiting_worker_step [of F i c c' n] show ?thesis by simp
qed

lemma worker_step_frame:
  assumes "worker_step F i c = Some c'"
  shows "cpc c' = cpc c" "calls c' = calls c" "synced c' = synced c"
    "length (workers c') = length (workers c)" "expected (bar c') = expected (bar c)"
    "\<And>j. j < length (workers c) \<Longrightarrow> stop_requested (workers c' ! j) = stop_requested (workers c ! j)"
    "\<And>j. j < length (workers c) \<Longrightarrow> warg (workers c' ! j) = warg (workers c ! j)"
  using assms
  by (cases rule: worker_step_cases; auto simp: nth_list_update set_wpc_def)+

lemma caller_ok_worker_step:
  assumes "worker_step F i c = Some c'" "caller_ok md c"
  shows "caller_ok md c'"
  using assms(2) worker_step_frame [OF assms(1)]
  by (auto simp: caller_ok_def nostop_def allstop_def stops_upto_def split: cpc.splits if_splits)

lemma pool_inv_worker_step:
  assumes "worker_step F i c = Some c'" "pool_inv F c"
  shows "pool_inv F c'"
proof -
  from assms(2) obtain md where md: "mode_ok F md c" "caller_ok md c"
    and ex: "expected (bar c) = length (workers c)" and B: "0 < nbar F"
    by (auto simp: pool_inv_def)
  from mode_worker_step [OF assms(1) md(1) ex B] caller_ok_worker_step [OF assms(1) md(2)]
    worker_step_frame [OF assms(1)] ex B
  show ?thesis by (auto simp: pool_inv_def)
qed

lemma iteration_caller_fields [simp]:
  "iteration F e k (c\<lparr>cpc := q\<rparr>) = iteration F e k c"
  "iteration F e k (c\<lparr>calls := cs\<rparr>) = iteration F e k c"
  "iteration F e k (c\<lparr>synced := b\<rparr>) = iteration F e k c"
  by (simp_all add: iteration_def)

lemma quiescent_caller_fields [simp]:
  "quiescent (c\<lparr>cpc := q\<rparr>) = quiescent c"
  "quiescent (c\<lparr>calls := cs\<rparr>) = quiescent c"
  "quiescent (c\<lparr>synced := b\<rparr>) = quiescent c"
  by (simp_all add: quiescent_def)

lemma exiting_caller_fields [simp]:
  "exiting n (c\<lparr>cpc := q\<rparr>) = exiting n c"
  "exiting n (c\<lparr>calls := cs\<rparr>) = exiting n c"
  "exiting n (c\<lparr>synced := b\<rparr>) = exiting n c"
  by (simp_all add: exiting_def)

lemma stops_caller_fields [simp]:
  "nostop (c\<lparr>cpc := q\<rparr>) = nostop c"
  "nostop (c\<lparr>calls := cs\<rparr>) = nostop c"
  "nostop (c\<lparr>synced := b\<rparr>) = nostop c"
  "nostop (c\<lparr>start_sem := n\<rparr>) = nostop c"
  "nostop (c\<lparr>finish_sem := n\<rparr>) = nostop c"
  "allstop (c\<lparr>cpc := q\<rparr>) = allstop c"
  "allstop (c\<lparr>calls := cs\<rparr>) = allstop c"
  "allstop (c\<lparr>synced := b\<rparr>) = allstop c"
  "allstop (c\<lparr>start_sem := n\<rparr>) = allstop c"
  "stops_upto k (c\<lparr>cpc := q\<rparr>) = stops_upto k c"
  "stops_upto k (c\<lparr>calls := cs\<rparr>) = stops_upto k c"
  by (simp_all add: nostop_def allstop_def stops_upto_def)

lemma quiescent_count:
  assumes "quiescent c"
  shows "count_wpc (\<lambda>q. q = W_acquire) (workers c) = length (workers c)"
    "count_wpc (waiting_at P) (workers c) = 0"
proof -
  show "count_wpc (\<lambda>q. q = W_acquire) (workers c) = length (workers c)"
    by (rule count_wpc_full) (use assms in \<open>simp add: quiescent_def\<close>)
  show "count_wpc (waiting_at P) (workers c) = 0"
    by (rule count_wpc_none) (use assms in \<open>simp add: quiescent_def\<close>)
qed

lemma release_iteration:
  assumes "quiescent c" "nostop c" "0 < nbar F"
  shows "iteration F 0 0 (c\<lparr>start_sem := start_sem c + length (workers c), cpc := C_unsync\<rparr>)"
  using assms quiescent_count [OF assms(1)]
  by (auto simp: iteration_def quiescent_def nostop_def)

lemma release_exiting:
  assumes "quiescent c" "allstop c"
  shows "exiting 0 (c\<lparr>start_sem := start_sem c + length (workers c), cpc := C_unsync\<rparr>)"
  using assms quiescent_count [OF assms(1)]
  by (auto simp: exiting_def quiescent_def allstop_def)

lemma iteration_consumed_all:
  assumes it: "iteration F e k c" and k: "length (workers c) \<le> k" and B: "0 < nbar F"
  shows "quiescent c \<and> nostop c \<and> k = length (workers c)"
proof -
  let ?na = "count_wpc (\<lambda>q. q = W_acquire) (workers c)"
  have le: "?na \<le> length (workers c)" by (rule count_wpc_le)
  from it have fin: "finish_sem c + k = (if e = nbar F then ?na else 0)"
    by (simp add: iteration_def)
  with le k have f0: "finish_sem c = 0" and kN: "k = length (workers c)"
    by (auto split: if_splits)
  have ns: "nostop c" using it by (simp add: iteration_def nostop_def)
  show ?thesis
  proof (cases "workers c = []")
    case True
    with it f0 kN ns show ?thesis
      by (auto simp: iteration_def quiescent_def count_wpc_def)
  next
    case False
    with fin kN f0 have e: "e = nbar F" and na: "?na = length (workers c)"
      by (auto split: if_splits)
    have acq: "wpc (workers c ! j) = W_acquire" if "j < length (workers c)" for j
      using count_wpc_all [OF na that] .
    have "count_wpc (waiting_at (phase (bar c))) (workers c) = 0"
      by (rule count_wpc_none) (simp add: acq)
    with it e B acq f0 kN ns show ?thesis
      by (auto simp: iteration_def quiescent_def)
  qed
qed

lemma iteration_consume:
  assumes "iteration F e k c" "finish_sem c \<noteq> 0"
  shows "iteration F e (Suc k) (c\<lparr>finish_sem := finish_sem c - 1, cpc := q\<rparr>)"
  using assms by (auto simp: iteration_def)

lemma quiescent_stop:
  assumes "quiescent c" "k < length (workers c)"
  shows "quiescent (c\<lparr>workers := (workers c)[k := (workers c ! k)\<lparr>stop_requested := True\<rparr>], cpc := q\<rparr>)"
  using assms by (auto simp: quiescent_def nth_list_update)

lemma stops_upto_Suc:
  assumes "stops_upto k c" "k < length (workers c)"
  shows "stops_upto (Suc k) (c\<lparr>workers := (workers c)[k := (workers c ! k)\<lparr>stop_requested := True\<rparr>], cpc := q\<rparr>)"
  using assms by (auto simp: stops_upto_def nth_list_update less_Suc_eq)

lemma mode_ok_caller_fields [simp]:
  "mode_ok F md (c\<lparr>cpc := q\<rparr>) = mode_ok F md c"
  "mode_ok F md (c\<lparr>calls := cs\<rparr>) = mode_ok F md c"
  "mode_ok F md (c\<lparr>synced := b\<rparr>) = mode_ok F md c"
  by (cases md; simp)+

lemma pool_inv_caller_step:
  assumes step: "caller_step c = Some c'" and inv: "pool_inv F c"
  shows "pool_inv F c'"
proof -
  from inv obtain md where md: "mode_ok F md c" "caller_ok md c"
    and ex: "expected (bar c) = length (workers c)" and B: "0 < nbar F"
    by (auto simp: pool_inv_def)
  have goal: "pool_inv F c'"
    if "mode_ok F md' c'" "caller_ok md' c'" "expected (bar c') = length (workers c')" for md'
    using that B by (auto simp: pool_inv_def)
  show ?thesis
  proof (cases "cpc c")
    case C_idle
    with step obtain x cs where cs: "calls c = x # cs"
      by (cases "calls c") (auto simp: caller_step_def)
    show ?thesis
    proof (rule goal [of md])
      show "mode_ok F md c'"
        using step C_idle cs md(1) by (cases x) (auto simp: caller_step_def)
      show "caller_ok md c'"
        using step C_idle cs md(2)
        by (cases x) (auto simp: caller_step_def caller_ok_def nostop_def allstop_def stops_upto_def)
      show "expected (bar c') = length (workers c')"
        using step C_idle cs ex by (cases x) (auto simp: caller_step_def)
    qed
  next
    case C_release
    with step have c': "c' = c\<lparr>start_sem := start_sem c + length (workers c), cpc := C_unsync\<rparr>"
      by (simp add: caller_step_def)
    from md(2) C_release have q: "md = Quiet" "synced c"
      and alt: "(nostop c \<and> conforms False (calls c)) \<or> (allstop c \<and> calls c = [Join])"
      by (auto simp: caller_ok_def)
    from q md(1) have qu: "quiescent c" by simp
    from alt show ?thesis
    proof
      assume a: "nostop c \<and> conforms False (calls c)"
      show ?thesis
      proof (rule goal [of "Iter 0"])
        show "mode_ok F (Iter 0) c'"
          using release_iteration [OF qu _ B] a c' by auto
        show "caller_ok (Iter 0) c'" using a c' by (simp add: caller_ok_def)
        show "expected (bar c') = length (workers c')" using ex c' by simp
      qed
    next
      assume a: "allstop c \<and> calls c = [Join]"
      show ?thesis
      proof (rule goal [of "Exit 0"])
        show "mode_ok F (Exit 0) c'"
          using release_exiting [OF qu] a c' by auto
        show "caller_ok (Exit 0) c'" using a c' by (simp add: caller_ok_def)
        show "expected (bar c') = length (workers c')" using ex c' by simp
      qed
    qed
  next
    case C_unsync
    with step have c': "c' = c\<lparr>synced := False, cpc := C_idle\<rparr>"
      by (simp add: caller_step_def)
    show ?thesis
    proof (rule goal [of md])
      show "mode_ok F md c'" using md(1) c' by simp
      show "caller_ok md c'" using md(2) C_unsync c' by (auto simp: caller_ok_def)
      show "expected (bar c') = length (workers c')" using ex c' by simp
    qed
  next
    case C_check
    show ?thesis
    proof (rule goal [of md])
      show "mode_ok F md c'"
        using step C_check md(1) by (auto simp: caller_step_def split: if_splits)
      show "caller_ok md c'"
        using step C_check md(2) by (auto simp: caller_step_def caller_ok_def split: if_splits)
      show "expected (bar c') = length (workers c')"
        using step C_check ex by (auto simp: caller_step_def split: if_splits)
    qed
  next
    case (C_acquire k)
    with md(2) have k: "md = Iter k" "\<not> synced c" "conforms True (calls c)"
      by (auto simp: caller_ok_def)
    with md(1) obtain e where it: "iteration F e k c" by auto
    show ?thesis
    proof (cases "length (workers c) \<le> k")
      case True
      with step C_acquire have c': "c' = c\<lparr>cpc := C_set\<rparr>" by (simp add: caller_step_def)
      from iteration_consumed_all [OF it True B] have qu: "quiescent c" "nostop c" by auto
      show ?thesis
      proof (rule goal [of Quiet])
        show "mode_ok F Quiet c'" using qu c' by simp
        show "caller_ok Quiet c'" using qu k c' by (simp add: caller_ok_def nostop_def)
        show "expected (bar c') = length (workers c')" using ex c' by simp
      qed
    next
      case False
      with step C_acquire have f: "finish_sem c \<noteq> 0"
        and c': "c' = c\<lparr>finish_sem := finish_sem c - 1, cpc := C_acquire (Suc k)\<rparr>"
        by (auto simp: caller_step_def split: if_splits)
      show ?thesis
      proof (rule goal [of "Iter (Suc k)"])
        show "mode_ok F (Iter (Suc k)) c'"
          using iteration_consume [OF it f] c' by auto
        show "caller_ok (Iter (Suc k)) c'" using k c' by (simp add: caller_ok_def)
        show "expected (bar c') = length (workers c')" using ex c' by simp
      qed
    qed
  next
    case C_set
    with step have c': "c' = c\<lparr>synced := True, cpc := C_idle\<rparr>"
      by (simp add: caller_step_def)
    show ?thesis
    proof (rule goal [of md])
      show "mode_ok F md c'" using md(1) c' by simp
      show "caller_ok md c'" using md(2) C_set c' by (auto simp: caller_ok_def nostop_def)
      show "expected (bar c') = length (workers c')" using ex c' by simp
    qed
  next
    case (C_stop k)
    with md(2) have k: "md = Quiet" "synced c" "stops_upto k c" "calls c = [Trigger, Join]"
      by (auto simp: caller_ok_def)
    with md(1) have qu: "quiescent c" by simp
    show ?thesis
    proof (cases "length (workers c) \<le> k")
      case True
      with step C_stop have c': "c' = c\<lparr>cpc := C_idle\<rparr>" by (simp add: caller_step_def)
      show ?thesis
      proof (rule goal [of Quiet])
        show "mode_ok F Quiet c'" using qu c' by simp
        show "caller_ok Quiet c'"
          using k True c' by (auto simp: caller_ok_def allstop_def stops_upto_def)
        show "expected (bar c') = length (workers c')" using ex c' by simp
      qed
    next
      case False
      then have kl: "k < length (workers c)" by simp
      with step C_stop
      have c': "c' = c\<lparr>workers := (workers c)[k := (workers c ! k)\<lparr>stop_requested := True\<rparr>],
                        cpc := C_stop (Suc k)\<rparr>"
        by (simp add: caller_step_def)
      show ?thesis
      proof (rule goal [of Quiet])
        show "mode_ok F Quiet c'" using quiescent_stop [OF qu kl] c' by simp
        show "caller_ok Quiet c'"
          using stops_upto_Suc [OF k(3) kl, of "C_stop (Suc k)"] k c'
          by (simp add: caller_ok_def stops_upto_def)
        show "expected (bar c') = length (workers c')" using ex c' by simp
      qed
    qed
  next
    case (C_join k)
    with md(2) have k: "md = Exit k" "\<not> synced c" "calls c = []"
      by (auto simp: caller_ok_def)
    with md(1) have exi: "exiting k c" by simp
    show ?thesis
    proof (cases "length (workers c) \<le> k")
      case True
      with step C_join have c': "c' = c\<lparr>cpc := C_idle\<rparr>" by (simp add: caller_step_def)
      show ?thesis
      proof (rule goal [of "Exit (length (workers c))"])
        show "mode_ok F (Exit (length (workers c))) c'"
          using exi True c' by (auto simp: exiting_def)
        show "caller_ok (Exit (length (workers c))) c'"
          using k c' by (simp add: caller_ok_def)
        show "expected (bar c') = length (workers c')" using ex c' by simp
      qed
    next
      case False
      with step C_join have w: "wpc (workers c ! k) = W_exited"
        and c': "c' = c\<lparr>cpc := C_join (Suc k)\<rparr>"
        by (auto simp: caller_step_def split: if_splits)
      show ?thesis
      proof (rule goal [of "Exit (Suc k)"])
        show "mode_ok F (Exit (Suc k)) c'"
          using exi w c' by (auto simp: exiting_def less_Suc_eq)
        show "caller_ok (Exit (Suc k)) c'"
          using k c' by (simp add: caller_ok_def)
        show "expected (bar c') = length (workers c')" using ex c' by simp
      qed
    qed
  qed
qed

lemma pool_inv_thread_step:
  "thread_step F th c = Some c' \<Longrightarrow> pool_inv F c \<Longrightarrow> pool_inv F c'"
  by (cases th) (auto simp: thread_step_def pool_inv_caller_step pool_inv_worker_step)

lemma pool_inv_exec:
  "exec F sch c = Some c' \<Longrightarrow> pool_inv F c \<Longrightarrow> pool_inv F c'"
proof (induction sch arbitrary: c)
  case Nil
  then show ?case by simp
next
  case (Cons th sch)
  then obtain c1 where s: "thread_step F th c = Some c1" and e: "exec F sch c1 = Some c'"
    by (auto split: option.splits)
  from Cons.IH [OF e pool_inv_thread_step [OF s Cons.prems(2)]] show ?case .
qed

lemma count_wpc_pos:
  "i < length ws \<Longrightarrow> P (wpc (ws ! i)) \<Longrightarrow> 0 < count_wpc P ws"
  unfolding count_wpc_def by (metis filter_empty_conv length_greater_0_conv nth_mem)

lemma caller_enabled:
  assumes "\<not> returned c"
    "\<And>k. cpc c = C_acquire k \<Longrightarrow> length (workers c) \<le> k \<or> finish_sem c \<noteq> 0"
    "\<And>k. cpc c = C_join k \<Longrightarrow> length (workers c) \<le> k \<or> wpc (workers c ! k) = W_exited"
  shows "\<exists>c'. caller_step c = Some c'"
proof (cases "cpc c")
  case C_idle
  with assms(1) obtain x cs where "calls c = x # cs"
    by (cases "calls c") (auto simp: returned_def)
  with C_idle show ?thesis by (cases x) (auto simp: caller_step_def)
next
  case (C_acquire k)
  with assms(2) [of k] show ?thesis by (auto simp: caller_step_def)
next
  case (C_join k)
  with assms(3) [of k] show ?thesis by (auto simp: caller_step_def)
qed (auto simp: caller_step_def)

lemma worker_enabled:
  assumes "i < length (workers c)"
    "wpc (workers c ! i) = W_acquire \<Longrightarrow> start_sem c \<noteq> 0"
    "\<And>k. wpc (workers c ! i) \<noteq> W_wait k (phase (bar c))"
    "wpc (workers c ! i) \<noteq> W_exited"
  shows "\<exists>c'. worker_step F i c = Some c'"
  using assms
  by (cases "wpc (workers c ! i)")
     (auto simp: worker_step_def Let_def split: instr.splits prod.splits)

lemma iteration_progress:
  assumes it: "iteration F e k c" and k: "k < length (workers c)" and f: "finish_sem c = 0"
    and B: "0 < nbar F"
  shows "\<exists>i c'. worker_step F i c = Some c'"
proof (rule ccontr)
  assume "\<not> ?thesis"
  then have stuck: "worker_step F i c = None" for i
    by (cases "worker_step F i c") auto
  let ?P = "phase (bar c)"
  let ?na = "count_wpc (\<lambda>q. q = W_acquire) (workers c)"
  have blocked: "(wpc (workers c ! j) = W_acquire \<and> start_sem c = 0)
      \<or> (\<exists>m. wpc (workers c ! j) = W_wait m ?P)" if j: "j < length (workers c)" for j
  proof (rule ccontr)
    assume n: "\<not> ?thesis"
    from iteration_nth [OF it j] have "wpc (workers c ! j) \<noteq> W_exited" by auto
    with n worker_enabled [OF j, of F] stuck [of j] show False by auto
  qed
  have nowait_acq: False if j: "j < length (workers c)" and a: "wpc (workers c ! j) = W_acquire" for j
  proof -
    from blocked [OF j] a have s0: "start_sem c = 0" by auto
    from count_wpc_pos [OF j, of "\<lambda>q. q = W_acquire"] a have pos: "0 < ?na" by simp
    with it s0 have e0: "e \<noteq> 0" by (auto simp: iteration_def split: if_splits)
    with iteration_nth [OF it j] a have e: "e = nbar F" by simp
    with it f have na: "?na = k" by (simp add: iteration_def)
    have "\<exists>i < length (workers c). wpc (workers c ! i) \<noteq> W_acquire"
    proof (rule ccontr)
      assume "\<not> ?thesis"
      then have "?na = length (workers c)" by (intro count_wpc_full) auto
      with na k show False by simp
    qed
    then obtain i where i: "i < length (workers c)" "wpc (workers c ! i) \<noteq> W_acquire" by auto
    with blocked [OF i(1)] obtain m where m: "wpc (workers c ! i) = W_wait m ?P" by auto
    with iteration_nth [OF it i(1)] have "m < length F" "is_barrier (F ! m)" "nb F m = e" by auto
    with nb_barrier_less [of m F] e show False by simp
  qed
  have "waiting_at ?P (wpc (workers c ! j))" if j: "j < length (workers c)" for j
    using blocked [OF j] nowait_acq [OF j] by auto
  then have "count_wpc (waiting_at ?P) (workers c) = length (workers c)"
    by (rule count_wpc_full)
  with it k show False by (auto simp: iteration_def)
qed

lemma exiting_progress:
  assumes ex: "exiting n c" and k: "k < length (workers c)" and w: "wpc (workers c ! k) \<noteq> W_exited"
  shows "\<exists>c'. worker_step F k c = Some c'"
proof (rule worker_enabled [OF k _ _ w])
  assume a: "wpc (workers c ! k) = W_acquire"
  from count_wpc_pos [OF k, of "\<lambda>q. q = W_acquire"] a ex show "start_sem c \<noteq> 0"
    by (simp add: exiting_def)
next
  fix m show "wpc (workers c ! k) \<noteq> W_wait m (phase (bar c))"
    using exiting_nth [OF ex k] by auto
qed

lemma pool_progress:
  assumes inv: "pool_inv F c" and nr: "\<not> returned c"
  shows "\<exists>th c'. thread_step F th c = Some c'"
proof -
  from inv obtain md where md: "mode_ok F md c" "caller_ok md c" and B: "0 < nbar F"
    by (auto simp: pool_inv_def)
  have worker: ?thesis if "\<exists>i c'. worker_step F i c = Some c'"
  proof -
    from that obtain i c' where "worker_step F i c = Some c'" by auto
    then have "thread_step F (Worker i) c = Some c'" by (simp add: thread_step_def)
    then show ?thesis by blast
  qed
  show ?thesis
  proof (cases "\<exists>c'. caller_step c = Some c'")
    case True
    then obtain c' where "thread_step F Caller c = Some c'" by (auto simp: thread_step_def)
    then show ?thesis by blast
  next
    case False
    with caller_enabled [OF nr] consider
      k where "cpc c = C_acquire k" "k < length (workers c)" "finish_sem c = 0"
      | k where "cpc c = C_join k" "k < length (workers c)" "wpc (workers c ! k) \<noteq> W_exited"
      by (metis not_le)
    then show ?thesis
    proof cases
      case 1
      with md obtain e where "iteration F e k c" by (auto simp: caller_ok_def)
      from iteration_progress [OF this 1(2,3) B] show ?thesis by (rule worker)
    next
      case 2
      with md have "exiting k c" by (auto simp: caller_ok_def)
      from exiting_progress [OF this 2(2,3), of F] show ?thesis by (intro worker) auto
    qed
  qed
qed

lemma exec_append:
  "exec F (sch1 @ sch2) c = (case exec F sch1 c of None \<Rightarrow> None | Some c1 \<Rightarrow> exec F sch2 c1)"
  by (induction sch1 arbitrary: c) (auto split: option.splits)

lemma complete_schedule:
  assumes "pool_inv F c"
  shows "\<exists>sch c'. exec F sch c = Some c' \<and> returned c'"
  using assms
proof (induction "cost F c" arbitrary: c rule: less_induct)
  case less
  show ?case
  proof (cases "returned c")
    case True
    then have "exec F [] c = Some c \<and> returned c" by simp
    then show ?thesis by blast
  next
    case False
    from pool_progress [OF less.prems False] obtain th c1 where s: "thread_step F th c = Some c1"
      by auto
    from less.hyps [OF thread_step_cost [OF s] pool_inv_thread_step [OF s less.prems]]
    obtain sch c' where "exec F sch c1 = Some c'" "returned c'" by auto
    with s have "exec F (th # sch) c = Some c' \<and> returned c'" by simp
    then show ?thesis by blast
  qed
qed

text \<open>Every run is bounded, and every run that has not returned can go on to a return.\<close>

lemma runs_terminate:
  assumes inv: "pool_inv F c" and run: "exec F sch c = Some c1"
  shows "length sch \<le> cost F c"
    and "\<not> returned c1 \<Longrightarrow> \<exists>th c2. thread_step F th c1 = Some c2"
    and "\<exists>sch' c'. exec F (sch @ sch') c = Some c' \<and> returned c'"
proof -
  from exec_cost [OF run] show "length sch \<le> cost F c" by simp
  from pool_inv_exec [OF run inv] have inv1: "pool_inv F c1" .
  then show "\<not> returned c1 \<Longrightarrow> \<exists>th c2. thread_step F th c1 = Some c2"
    by (rule pool_progress)
  from complete_schedule [OF inv1] obtain sch' c' where "exec F sch' c1 = Some c'" "returned c'"
    by auto
  with run have "exec F (sch @ sch') c = Some c' \<and> returned c'" by (simp add: exec_append)
  then show "\<exists>sch' c'. exec F (sch @ sch') c = Some c' \<and> returned c'" by blast
qed

lemma pending_synced_thread_step:
  assumes "thread_step F th c = Some c'"
  shows "pending_synced c' = pending_synced c"
proof (cases th)
  case Caller
  with assms have s: "caller_step c = Some c'" by (simp add: thread_step_def)
  show ?thesis
  proof (cases "cpc c")
    case C_idle
    with s obtain x cs where "calls c = x # cs" by (cases "calls c") (auto simp: caller_step_def)
    with s C_idle show ?thesis by (cases x) (auto simp: caller_step_def pending_synced_def)
  qed (use s in \<open>auto simp: caller_step_def pending_synced_def split: if_splits\<close>)
next
  case (Worker i)
  with assms worker_step_frame(1,2,3) [of F i c c'] show ?thesis
    by (auto simp: thread_step_def pending_synced_def split: cpc.splits)
qed

lemma pending_synced_exec:
  "exec F sch c = Some c' \<Longrightarrow> pending_synced c' = pending_synced c"
proof (induction sch arbitrary: c)
  case Nil
  then show ?case by simp
next
  case (Cons th sch)
  then obtain c1 where s: "thread_step F th c = Some c1" and e: "exec F sch c1 = Some c'"
    by (auto split: option.splits)
  from Cons.IH [OF e] pending_synced_thread_step [OF s] show ?case by simp
qed

lemma returned_synced_quiescent:
  assumes "pool_inv F c" "cpc c = C_idle" "synced c"
  shows "quiescent c"
  using assms by (auto simp: pool_inv_def caller_ok_def)

lemma returned_synced_nostop:
  assumes "pool_inv F c" "returned c" "synced c"
  shows "nostop c"
  using assms by (auto simp: pool_inv_def caller_ok_def returned_def)

lemma run_config_simps [simp]:
  "workers (run_config p b m cs) = workers p"
  "start_sem (run_config p b m cs) = start_sem p"
  "finish_sem (run_config p b m cs) = finish_sem p"
  "synced (run_config p b m cs) = synced p"
  "bar (run_config p b m cs) = b"
  "mem (run_config p b m cs) = m"
  "cpc (run_config p b m cs) = C_idle"
  "calls (run_config p b m cs) = cs"
  by (simp_all add: run_config_def pool.extend_def)

lemma pool_of_simps [simp]:
  "workers (pool_of c) = workers c"
  "start_sem (pool_of c) = start_sem c"
  "finish_sem (pool_of c) = finish_sem c"
  "synced (pool_of c) = synced c"
  by (simp_all add: pool_of_def pool.truncate_def)

lemma pool_inv_start:
  assumes "pool_ok p b" "0 < nbar F" "conforms True cs"
  shows "pool_inv F (run_config p b m cs)"
proof -
  have "mode_ok F Quiet (run_config p b m cs)"
    using assms(1) by (simp add: pool_ok_def quiescent_def)
  moreover have "caller_ok Quiet (run_config p b m cs)"
    using assms by (simp add: caller_ok_def pool_ok_def nostop_def)
  ultimately have "\<exists>md. mode_ok F md (run_config p b m cs) \<and> caller_ok md (run_config p b m cs)"
    by blast
  with assms show ?thesis
    by (simp add: pool_inv_def pool_ok_def)
qed

lemma pool_ok_return:
  assumes "pool_inv F c" "returned c" "synced c"
  shows "pool_ok (pool_of c) (bar c)"
proof -
  from returned_synced_quiescent [OF assms(1) _ assms(3)] assms(2)
  have "quiescent c" by (simp add: returned_def)
  moreover from returned_synced_nostop [OF assms] have "nostop c" .
  ultimately show ?thesis
    using assms by (auto simp: pool_ok_def quiescent_def nostop_def pool_inv_def)
qed

lemma caller_step_frame:
  assumes "caller_step c = Some c'"
  shows "length (workers c') = length (workers c)" "bar c' = bar c" "mem c' = mem c"
    "\<And>j. j < length (workers c) \<Longrightarrow> warg (workers c' ! j) = warg (workers c ! j)"
    "\<And>j. j < length (workers c) \<Longrightarrow> wpc (workers c' ! j) = wpc (workers c ! j)"
proof -
  have "length (workers c') = length (workers c) \<and> bar c' = bar c \<and> mem c' = mem c \<and>
    (\<forall>j < length (workers c). warg (workers c' ! j) = warg (workers c ! j) \<and>
        wpc (workers c' ! j) = wpc (workers c ! j))"
  proof (cases "cpc c")
    case C_idle
    with assms obtain x cs where "calls c = x # cs"
      by (cases "calls c") (auto simp: caller_step_def)
    with assms C_idle show ?thesis by (cases x) (auto simp: caller_step_def)
  qed (use assms in \<open>auto simp: caller_step_def nth_list_update split: if_splits\<close>)
  then show "length (workers c') = length (workers c)" "bar c' = bar c" "mem c' = mem c"
    "\<And>j. j < length (workers c) \<Longrightarrow> warg (workers c' ! j) = warg (workers c ! j)"
    "\<And>j. j < length (workers c) \<Longrightarrow> wpc (workers c' ! j) = wpc (workers c ! j)"
    by auto
qed

lemma same_shape_thread_step:
  assumes "thread_step F th c = Some c'"
  shows "same_shape c c'"
proof (cases th)
  case Caller
  with assms caller_step_frame [of c c'] show ?thesis
    by (simp add: thread_step_def same_shape_def)
next
  case (Worker i)
  with assms worker_step_frame [of F i c c'] show ?thesis
    by (simp add: thread_step_def same_shape_def)
qed

lemma same_shape_exec: "exec F sch c = Some c' \<Longrightarrow> same_shape c c'"
proof (induction sch arbitrary: c)
  case Nil
  then show ?case by (simp add: same_shape_def)
next
  case (Cons th sch)
  then obtain c1 where s: "thread_step F th c = Some c1" and e: "exec F sch c1 = Some c'"
    by (auto split: option.splits)
  from Cons.IH [OF e] same_shape_thread_step [OF s] show ?case
    by (auto simp: same_shape_def)
qed

lemma acts_keep_thread_step:
  assumes "thread_step F th c = Some c'" "acts_keep F P" "P (mem c)"
  shows "P (mem c')"
proof (cases th)
  case Caller
  with assms caller_step_frame(3) [of c c'] show ?thesis by (simp add: thread_step_def)
next
  case (Worker i)
  with assms(1) have "worker_step F i c = Some c'" by (simp add: thread_step_def)
  then show ?thesis
  proof (cases rule: worker_step_cases)
    case (act k a l' m')
    with assms(2,3) have "P (snd (a (warg (workers c ! i)) (wlocal (workers c ! i)) (mem c)))"
      unfolding acts_keep_def by blast
    with act show ?thesis by simp
  qed (use assms(3) in simp_all)
qed

lemma acts_keep_exec:
  "exec F sch c = Some c' \<Longrightarrow> acts_keep F P \<Longrightarrow> P (mem c) \<Longrightarrow> P (mem c')"
proof (induction sch arbitrary: c)
  case Nil
  then show ?case by simp
next
  case (Cons th sch)
  then obtain c1 where s: "thread_step F th c = Some c1" and e: "exec F sch c1 = Some c'"
    by (auto split: option.splits)
  from Cons.IH [OF e Cons.prems(2) acts_keep_thread_step [OF s Cons.prems(2,3)]] show ?case .
qed

lemma nbar_step_closure [simp]: "nbar (step_closure gm n) = 3"
  by (simp add: nbar_def step_closure_def)

lemma nbar_ds_closure [simp]: "nbar (ds_closure gm n) = 2"
  by (simp add: nbar_def ds_closure_def)

lemma acts_keep_step_closure:
  "acts_keep (step_closure gm n)
     (\<lambda>m. t m = t0 \<and> iter_time_step m = dt \<and> ds_aggregator m = a0)"
  unfolding acts_keep_def step_closure_def
  by (auto simp: nth_Cons' range_act_def update_h_act_def update_g_act_def split: if_splits)

lemma acts_keep_ds_closure:
  "acts_keep (ds_closure gm n)
     (\<lambda>m. h m = h0 \<and> g m = g0 \<and> t m = t0 \<and> iter_time_step m = dt)"
  unfolding acts_keep_def ds_closure_def
  by (auto simp: nth_Cons' range_act_def ds_act_def split: if_splits)

lemma trigger_sync_returns_synced:
  assumes "exec F sch (run_config p b m trigger_sync) = Some c" "returned c"
  shows "synced c"
proof -
  from pending_synced_exec [OF assms(1)] have "pending_synced c"
    by (simp add: pending_synced_def trigger_sync_def)
  with assms(2) show ?thesis by (simp add: pending_synced_def returned_def)
qed

lemma stepper_ok_constructed: "stepper_ok (constructed n d)"
  by (simp add: stepper_ok_def constructed_def pool_ok_def new_pool_def new_barrier_def
      new_worker_def)

lemma step_start_inv:
  assumes "stepper_ok s"
  shows "pool_inv (step_closure gm (nthreads s)) (step_start dt s)"
  unfolding step_start_def
  using assms by (intro pool_inv_start) (simp_all add: stepper_ok_def trigger_sync_def)

lemma ds_start_inv:
  assumes "stepper_ok s"
  shows "pool_inv (ds_closure gm (nthreads s)) (ds_start s)"
  unfolding ds_start_def
  using assms by (intro pool_inv_start) (simp_all add: stepper_ok_def trigger_sync_def)

lemma step_run_facts:
  assumes ok: "stepper_ok s" and run: "step_run gm sch dt s = Some c"
  shows "t (mem c) = t (data s)" "iter_time_step (mem c) = dt"
    "ds_aggregator (mem c) = ds_aggregator (data s)"
    "same_shape (step_start dt s) c"
    "returned c \<Longrightarrow> pool_ok (pool_of c) (bar c)"
proof -
  let ?F = "step_closure gm (nthreads s)"
  from run have ex: "exec ?F sch (step_start dt s) = Some c" by (simp add: step_run_def)
  from acts_keep_exec [OF ex acts_keep_step_closure
      [of gm "nthreads s" "t (data s)" dt "ds_aggregator (data s)"]]
  show "t (mem c) = t (data s)" "iter_time_step (mem c) = dt"
    "ds_aggregator (mem c) = ds_aggregator (data s)"
    by (simp_all add: step_start_def)
  from same_shape_exec [OF ex] show "same_shape (step_start dt s) c" .
  assume r: "returned c"
  from ex have "synced c" unfolding step_start_def by (rule trigger_sync_returns_synced) (rule r)
  with pool_inv_exec [OF ex step_start_inv [OF ok]] r show "pool_ok (pool_of c) (bar c)"
    by (intro pool_ok_return)
qed

lemma step_result:
  assumes ok: "stepper_ok s" and st: "step gm sch dt s = Some (r, s')"
  shows "r = t (data s) + dt" "t (data s') = t (data s) + dt" "iter_time_step (data s') = dt"
    "ds_aggregator (data s') = ds_aggregator (data s)"
    "stepper_ok s'" "nthreads s' = nthreads s"
    "ds_workers s' = ds_workers s" "ds_barrier s' = ds_barrier s"
proof -
  from st obtain c where run: "step_run gm sch dt s = Some c" and ret: "returned c"
    and r: "r = t (mem c) + dt"
    and s': "s' = s\<lparr>step_workers := pool_of c, step_barrier := bar c,
                     data := (mem c)\<lparr>t := t (mem c) + dt\<rparr>\<rparr>"
    by (auto simp: step_def split: option.splits if_splits)
  note f = step_run_facts [OF ok run]
  from r f show "r = t (data s) + dt" by simp
  from s' f show "t (data s') = t (data s) + dt" "iter_time_step (data s') = dt"
    "ds_aggregator (data s') = ds_aggregator (data s)"
    "nthreads s' = nthreads s" "ds_workers s' = ds_workers s" "ds_barrier s' = ds_barrier s"
    by simp_all
  from ok f(4) f(5) [OF ret] s' show "stepper_ok s'"
    by (auto simp: stepper_ok_def same_shape_def step_start_def)
qed

lemma step_returns:
  assumes ok: "stepper_ok s"
  shows "\<exists>sch r s'. step gm sch dt s = Some (r, s')"
proof -
  from complete_schedule [OF step_start_inv [OF ok, of gm dt]]
  obtain sch c where "step_run gm sch dt s = Some c" "returned c"
    by (auto simp: step_run_def)
  then have "\<exists>r s'. step gm sch dt s = Some (r, s')" by (simp add: step_def)
  then show ?thesis by blast
qed

lemma step_run_snoc:
  "step_run gm (sch @ [th]) dt s =
     (case step_run gm sch dt s of None \<Rightarrow> None
      | Some c \<Rightarrow> thread_step (step_closure gm (nthreads s)) th c)"
  by (auto simp: step_run_def exec_append split: option.splits)

lemmas example_defs =
  step_def step_run_def step_start_def example_stepper_def constructed_def
  example_model_def example_data_def new_pool_def new_barrier_def
  new_worker_def thread_step_def worker_step_def caller_step_def step_closure_def
  range_act_def update_h_act_def update_g_act_def set_wpc_def trigger_sync_def returned_def
  run_config_def pool.extend_def pool_of_def pool.truncate_def Let_def

lemma step_run_bound:
  assumes ok: "stepper_ok s" and run: "step_run gm sch dt s = Some c"
  shows "length sch \<le> cost (step_closure gm (nthreads s)) (step_start dt s)"
    and "returned c \<or> (\<exists>th c'. step_run gm (sch @ [th]) dt s = Some c')"
proof -
  let ?F = "step_closure gm (nthreads s)"
  from run have ex: "exec ?F sch (step_start dt s) = Some c" by (simp add: step_run_def)
  note rt = runs_terminate [OF step_start_inv [OF ok] ex]
  from rt(1) show "length sch \<le> cost ?F (step_start dt s)" .
  show "returned c \<or> (\<exists>th c'. step_run gm (sch @ [th]) dt s = Some c')"
  proof (cases "returned c")
    case False
    from rt(2) [OF False] obtain th c' where "thread_step ?F th c = Some c'" by auto
    with run have "step_run gm (sch @ [th]) dt s = Some c'" by (simp add: step_run_snoc)
    then show ?thesis by blast
  qed simp
qed

lemma steps_clock:
  fixes gm :: "'v::plus grid_model"
  assumes "stepper_ok s" "steps gm xs s = Some s'"
  shows "t (data s') = foldl (+) (t (data s)) (map snd xs) \<and> stepper_ok s' \<and>
    nthreads s' = nthreads s"
  using assms
proof (induction xs arbitrary: s)
  case Nil
  then show ?case by simp
next
  case (Cons x xs)
  from Cons.prems(2) obtain r s1 where st: "step gm (fst x) (snd x) s = Some (r, s1)"
    and rest: "steps gm xs s1 = Some s'"
    by (auto split: option.splits)
  note f = step_result [OF Cons.prems(1) st]
  from Cons.IH [OF f(5) rest] f(2,6) show ?case by simp
qed


lemma foldl_plus_sum_list:
  fixes a :: "'v::monoid_add"
  shows "foldl (+) a xs = a + sum_list xs"
  by (induction xs arbitrary: a) (simp_all add: add.assoc)

subsection \<open>The reduction\<close>

lemma ds_run_facts:
  fixes gm :: "'v::{zero,plus} grid_model"
  assumes ok: "stepper_ok s" and run: "ds_run gm sch s = Some c"
  shows "h (mem c) = h (data s)" "g (mem c) = g (data s)" "t (mem c) = t (data s)"
    "iter_time_step (mem c) = iter_time_step (data s)"
    "same_shape (ds_start s) c"
    "returned c \<Longrightarrow> pool_ok (pool_of c) (bar c)"
    "length sch \<le> cost (ds_closure gm (nthreads s)) (ds_start s)"
    "returned c \<or> (\<exists>th c'. ds_run gm (sch @ [th]) s = Some c')"
proof -
  let ?F = "ds_closure gm (nthreads s)"
  from run have ex: "exec ?F sch (ds_start s) = Some c" by (simp add: ds_run_def)
  from acts_keep_exec [OF ex acts_keep_ds_closure
      [of gm "nthreads s" "h (data s)" "g (data s)" "t (data s)" "iter_time_step (data s)"]]
  show "h (mem c) = h (data s)" "g (mem c) = g (data s)" "t (mem c) = t (data s)"
    "iter_time_step (mem c) = iter_time_step (data s)"
    by (simp_all add: ds_start_def)
  from same_shape_exec [OF ex] show "same_shape (ds_start s) c" .
  note rt = runs_terminate [OF ds_start_inv [OF ok] ex]
  from rt(1) show "length sch \<le> cost ?F (ds_start s)" .
  show "returned c \<or> (\<exists>th c'. ds_run gm (sch @ [th]) s = Some c')"
  proof (cases "returned c")
    case False
    from rt(2) [OF False] obtain th c' where "thread_step ?F th c = Some c'" by auto
    with ex have "ds_run gm (sch @ [th]) s = Some c'" by (simp add: ds_run_def exec_append)
    then show ?thesis by blast
  qed simp
  assume r: "returned c"
  from ex have "synced c" unfolding ds_start_def by (rule trigger_sync_returns_synced) (rule r)
  with pool_inv_exec [OF ex ds_start_inv [OF ok]] r show "pool_ok (pool_of c) (bar c)"
    by (intro pool_ok_return)
qed

lemma dsteepness_result:
  fixes gm :: "'v::{semiring_1,inverse} grid_model"
  assumes ok: "stepper_ok s" and ds: "dsteepness gm sch s = Some (r, s')"
  shows "data s' = (data s)\<lparr>ds_aggregator := ds_aggregator (data s')\<rparr>"
    "r = ds_aggregator (data s') / of_nat (length (h (data s)))"
    "stepper_ok s'" "nthreads s' = nthreads s"
    "step_workers s' = step_workers s" "step_barrier s' = step_barrier s"
proof -
  from ds obtain c where run: "ds_run gm sch s = Some c" and ret: "returned c"
    and r: "r = ds_aggregator (mem c) / of_nat (length (h (mem c)))"
    and s': "s' = s\<lparr>ds_workers := pool_of c, ds_barrier := bar c, data := mem c\<rparr>"
    by (auto simp: dsteepness_def split: option.splits if_splits)
  note f = ds_run_facts [OF ok run]
  from s' f(1-4) show "data s' = (data s)\<lparr>ds_aggregator := ds_aggregator (data s')\<rparr>"
    by simp
  from r s' f(1) show "r = ds_aggregator (data s') / of_nat (length (h (data s)))" by simp
  from s' show "nthreads s' = nthreads s" "step_workers s' = step_workers s"
    "step_barrier s' = step_barrier s" by simp_all
  from ok f(5) f(6) [OF ret] s' show "stepper_ok s'"
    by (auto simp: stepper_ok_def same_shape_def ds_start_def)
qed

lemma dsteepness_returns:
  fixes gm :: "'v::{semiring_1,inverse} grid_model"
  assumes ok: "stepper_ok s"
  shows "\<exists>sch r s'. dsteepness gm sch s = Some (r, s')"
proof -
  from complete_schedule [OF ds_start_inv [OF ok, of gm]]
  obtain sch c where "ds_run gm sch s = Some c" "returned c"
    by (auto simp: ds_run_def)
  then have "\<exists>r s'. dsteepness gm sch s = Some (r, s')" by (simp add: dsteepness_def)
  then show ?thesis by blast
qed

lemmas example_ds_defs =
  dsteepness_def ds_run_def ds_start_def example_stepper_def constructed_def
  example_model_def example_data_def new_pool_def new_barrier_def
  new_worker_def thread_step_def worker_step_def caller_step_def ds_closure_def
  range_act_def ds_act_def set_wpc_def trigger_sync_def returned_def
  run_config_def pool.extend_def pool_of_def pool.truncate_def Let_def

text \<open>
  C10. \<^verbatim>\<open>dsteepness()\<close> on an object with idle pools, under every schedule: at every
  moment of the reduction the elevation field, the gradient field, the clock and the
  published time step are the ones before the call; when the call has returned, the
  shared data differ from the data before the call in \<^verbatim>\<open>ds_aggregator\<close> only, and the
  update pool and its barrier are untouched; so a second call finds the same fields.
\<close>

theorem dsteepness_changes_only_the_aggregator:
  fixes gm :: "'v::{semiring_1,inverse} grid_model"
  assumes "stepper_ok s"
  shows "(\<forall>sch c. ds_run gm sch s = Some c \<longrightarrow>
            h (mem c) = h (data s) \<and> g (mem c) = g (data s) \<and> t (mem c) = t (data s) \<and>
            iter_time_step (mem c) = iter_time_step (data s)) \<and>
         (\<forall>sch r s'. dsteepness gm sch s = Some (r, s') \<longrightarrow>
            data s' = (data s)\<lparr>ds_aggregator := ds_aggregator (data s')\<rparr> \<and>
            step_workers s' = step_workers s \<and> step_barrier s' = step_barrier s \<and>
            nthreads s' = nthreads s \<and> stepper_ok s' \<and>
            (\<forall>sch2 r2 s2. dsteepness gm sch2 s' = Some (r2, s2) \<longrightarrow>
               h (data s2) = h (data s) \<and> g (data s2) = g (data s) \<and> t (data s2) = t (data s)))"
proof (intro conjI allI impI)
  fix sch c assume run: "ds_run gm sch s = Some c"
  from ds_run_facts(1-4) [OF assms run]
  show "h (mem c) = h (data s)" "g (mem c) = g (data s)" "t (mem c) = t (data s)"
    "iter_time_step (mem c) = iter_time_step (data s)" .
next
  fix sch r s' assume ds: "dsteepness gm sch s = Some (r, s')"
  note f = dsteepness_result [OF assms ds]
  from f show "data s' = (data s)\<lparr>ds_aggregator := ds_aggregator (data s')\<rparr>"
    "step_workers s' = step_workers s" "step_barrier s' = step_barrier s"
    "nthreads s' = nthreads s" "stepper_ok s'" by simp_all
  fix sch2 r2 s2 assume ds2: "dsteepness gm sch2 s' = Some (r2, s2)"
  note f2 = dsteepness_result [OF f(3) ds2]
  have "data s2 = (data s)\<lparr>ds_aggregator := ds_aggregator (data s2)\<rparr>"
    by (subst f2(1), subst f(1)) simp
  then have "h (data s2) = h (data s) \<and> g (data s2) = g (data s) \<and> t (data s2) = t (data s)"
    by (metis data.select_convs(1,2,3) data.surjective data.update_convs(4))
  then show "h (data s2) = h (data s)" "g (data s2) = g (data s)" "t (data s2) = t (data s)"
    by simp_all
qed

theorem dsteepness_changes_only_the_aggregator_witness:
  "stepper_ok example_stepper \<and>
   map_option (\<lambda>rs. data (snd rs)) (dsteepness example_model ds_schedule example_stepper)
     = Some (example_data\<lparr>ds_aggregator := 0\<rparr>) \<and>
   map_option (\<lambda>rs. step_workers (snd rs)) (dsteepness example_model ds_schedule example_stepper)
     = Some (step_workers example_stepper)"
proof -
  have ok: "stepper_ok example_stepper"
    unfolding example_stepper_def by (rule stepper_ok_constructed)
  have "map_option (\<lambda>rs. ds_aggregator (data (snd rs)))
          (dsteepness example_model ds_schedule example_stepper) = Some 0"
    by (simp add: example_ds_defs ds_schedule_def)
  then obtain r s' where ds: "dsteepness example_model ds_schedule example_stepper = Some (r, s')"
    and a: "ds_aggregator (data s') = 0"
    by auto
  from dsteepness_changes_only_the_aggregator [OF ok, of example_model] ds
  have "data s' = (data example_stepper)\<lparr>ds_aggregator := ds_aggregator (data s')\<rparr> \<and>
        step_workers s' = step_workers example_stepper"
    by blast
  moreover have "data example_stepper = example_data"
    by (simp add: example_stepper_def constructed_def)
  ultimately show ?thesis using ds a ok by simp
qed

lemma other_thread_step_wpc:
  assumes "thread_step F th c = Some c'" "th \<noteq> Worker i" "i < length (workers c)"
  shows "wpc (workers c' ! i) = wpc (workers c ! i)" "length (workers c') = length (workers c)"
proof -
  have "wpc (workers c' ! i) = wpc (workers c ! i) \<and> length (workers c') = length (workers c)"
  proof (cases th)
    case Caller
    with assms caller_step_frame(1,5) [of c c'] show ?thesis by (simp add: thread_step_def)
  next
    case (Worker j)
    with assms have s: "worker_step F j c = Some c'" and ji: "j \<noteq> i"
      by (auto simp: thread_step_def)
    from s ji assms(3) show ?thesis
      by (cases rule: worker_step_cases) (auto simp: set_wpc_def nth_list_update)
  qed
  then show "wpc (workers c' ! i) = wpc (workers c ! i)"
    "length (workers c') = length (workers c)" by simp_all
qed




lemmas example_destroy_defs =
  example_destroy_def destroy_def destroy_schedule_def event_at_def example_defs


lemma exiting_worker_step_frame:
  assumes "worker_step F i c = Some c'" "exiting n c"
  shows "mem c' = mem c" "finish_sem c' = finish_sem c"
proof -
  from assms(1) have i: "i < length (workers c)"
    by (auto simp: worker_step_def split: if_splits)
  from assms(1) exiting_nth [OF assms(2) i]
  have "mem c' = mem c \<and> finish_sem c' = finish_sem c"
    by (cases rule: worker_step_cases) simp_all
  then show "mem c' = mem c" "finish_sem c' = finish_sem c" by simp_all
qed

lemma destroying_worker_step:
  assumes s: "worker_step F i c = Some c'" and d: "destroying m c"
  shows "destroying m c'"
proof -
  note fr = worker_step_frame(1-4) [OF s]
  have nq: "\<not> quiescent c" using quiescent_worker_step [of c F i] s by auto
  have keep: "exiting n c' \<and> mem c' = m \<and> finish_sem c' = 0" if "exiting n c" for n
    using exiting_worker_step [OF s that] exiting_worker_step_frame [OF s that] d
    by (simp add: destroying_def)
  show ?thesis
  proof (cases "cpc c")
    case C_idle
    with d nq have "(calls c = [Join] \<and> exiting 0 c \<and> \<not> synced c)
          \<or> (calls c = [] \<and> exiting (length (workers c)) c \<and> \<not> synced c)"
      by (simp add: destroying_def)
    then show ?thesis
    proof
      assume a: "calls c = [Join] \<and> exiting 0 c \<and> \<not> synced c"
      with keep [of 0] C_idle fr show ?thesis by (simp add: destroying_def)
    next
      assume a: "calls c = [] \<and> exiting (length (workers c)) c \<and> \<not> synced c"
      with keep [of "length (workers c)"] C_idle fr show ?thesis by (simp add: destroying_def)
    qed
  next
    case C_unsync
    with d have "calls c = [Join]" "exiting 0 c" by (simp_all add: destroying_def)
    with keep [of 0] C_unsync fr show ?thesis by (simp add: destroying_def)
  next
    case (C_join k)
    with d have "calls c = []" "exiting k c" "\<not> synced c" by (simp_all add: destroying_def)
    with keep [of k] C_join fr show ?thesis by (simp add: destroying_def)
  next
    case C_release
    with d nq show ?thesis by (simp add: destroying_def)
  next
    case (C_stop k)
    with d nq show ?thesis by (simp add: destroying_def)
  next
    case C_check
    with d show ?thesis by (simp add: destroying_def)
  next
    case (C_acquire k)
    with d show ?thesis by (simp add: destroying_def)
  next
    case C_set
    with d show ?thesis by (simp add: destroying_def)
  qed
qed

lemma destroying_caller_step:
  assumes s: "caller_step c = Some c'" and d: "destroying m c"
  shows "destroying m c'"
proof -
  from d have m: "mem c = m" "finish_sem c = 0" by (simp_all add: destroying_def)
  show ?thesis
  proof (cases "cpc c")
    case C_idle
    with d have alt: "(calls c = destroy \<and> quiescent c)
          \<or> (calls c = [Trigger, Join] \<and> quiescent c \<and> allstop c)
          \<or> (calls c = [Join] \<and> exiting 0 c \<and> \<not> synced c)
          \<or> (calls c = [] \<and> exiting (length (workers c)) c \<and> \<not> synced c)"
      by (simp add: destroying_def)
    then consider (start) "calls c = destroy" "quiescent c"
      | (stopped) "calls c = [Trigger, Join]" "quiescent c" "allstop c"
      | (woken) "calls c = [Join]" "exiting 0 c" "\<not> synced c"
      | (gone) "calls c = []"
      by blast
    then show ?thesis
    proof cases
      case start
      with s C_idle have "c' = c\<lparr>cpc := C_stop 0, calls := [Trigger, Join]\<rparr>"
        by (simp add: caller_step_def destroy_def)
      with start m show ?thesis by (simp add: destroying_def)
    next
      case stopped
      with s C_idle have "c' = c\<lparr>cpc := C_release, calls := [Join]\<rparr>"
        by (simp add: caller_step_def)
      with stopped m show ?thesis by (simp add: destroying_def)
    next
      case woken
      with s C_idle have "c' = c\<lparr>cpc := C_join 0, calls := []\<rparr>"
        by (simp add: caller_step_def)
      with woken m show ?thesis by (simp add: destroying_def)
    next
      case gone
      with s C_idle show ?thesis by (simp add: caller_step_def)
    qed
  next
    case (C_stop k)
    with d have st: "calls c = [Trigger, Join]" "quiescent c"
        "\<forall>j < length (workers c). j < k \<longrightarrow> stop_requested (workers c ! j)"
      by (simp_all add: destroying_def)
    show ?thesis
    proof (cases "length (workers c) \<le> k")
      case True
      with s C_stop have c': "c' = c\<lparr>cpc := C_idle\<rparr>" by (simp add: caller_step_def)
      from st(3) True have "allstop c" by (simp add: allstop_def)
      with c' st m show ?thesis by (simp add: destroying_def)
    next
      case False
      then have kl: "k < length (workers c)" by simp
      with s C_stop
      have c': "c' = c\<lparr>workers := (workers c)[k := (workers c ! k)\<lparr>stop_requested := True\<rparr>],
                        cpc := C_stop (Suc k)\<rparr>"
        by (simp add: caller_step_def)
      have "\<forall>j < length (workers c'). j < Suc k \<longrightarrow> stop_requested (workers c' ! j)"
        using st(3) c' by (auto simp: nth_list_update less_Suc_eq)
      with quiescent_stop [OF st(2) kl, of "C_stop (Suc k)"] c' st m show ?thesis
        by (simp add: destroying_def)
    qed
  next
    case C_release
    with d have r: "calls c = [Join]" "quiescent c" "allstop c" by (simp_all add: destroying_def)
    from s C_release
    have c': "c' = c\<lparr>start_sem := start_sem c + length (workers c), cpc := C_unsync\<rparr>"
      by (simp add: caller_step_def)
    from release_exiting [OF r(2,3)] c' r m show ?thesis
      by (simp add: destroying_def)
  next
    case C_unsync
    with d have u: "calls c = [Join]" "exiting 0 c" by (simp_all add: destroying_def)
    from s C_unsync have "c' = c\<lparr>synced := False, cpc := C_idle\<rparr>"
      by (simp add: caller_step_def)
    with u m show ?thesis by (simp add: destroying_def)
  next
    case (C_join k)
    with d have j: "calls c = []" "exiting k c" "\<not> synced c" by (simp_all add: destroying_def)
    show ?thesis
    proof (cases "length (workers c) \<le> k")
      case True
      with s C_join have c': "c' = c\<lparr>cpc := C_idle\<rparr>" by (simp add: caller_step_def)
      from j(2) True have "exiting (length (workers c)) c" by (auto simp: exiting_def)
      with c' j m show ?thesis by (simp add: destroying_def)
    next
      case False
      with s C_join have w: "wpc (workers c ! k) = W_exited"
        and c': "c' = c\<lparr>cpc := C_join (Suc k)\<rparr>"
        by (auto simp: caller_step_def split: if_splits)
      from j(2) w have "exiting (Suc k) c" by (auto simp: exiting_def less_Suc_eq)
      with c' j m show ?thesis by (simp add: destroying_def)
    qed
  next
    case C_check
    with d show ?thesis by (simp add: destroying_def)
  next
    case (C_acquire k)
    with d show ?thesis by (simp add: destroying_def)
  next
    case C_set
    with d show ?thesis by (simp add: destroying_def)
  qed
qed

lemma destroying_exec:
  "exec F sch c = Some c' \<Longrightarrow> destroying m c \<Longrightarrow> destroying m c'"
proof (induction sch arbitrary: c)
  case Nil
  then show ?case by simp
next
  case (Cons th sch)
  then obtain c1 where s: "thread_step F th c = Some c1" and e: "exec F sch c1 = Some c'"
    by (auto split: option.splits)
  from s Cons.prems(2) have "destroying m c1"
    by (cases th) (auto simp: thread_step_def destroying_caller_step destroying_worker_step)
  from Cons.IH [OF e this] show ?case .
qed

lemma destroying_progress:
  assumes d: "destroying m c" and nr: "\<not> returned c"
  shows "\<exists>th c'. thread_step F th c = Some c'"
proof (cases "\<exists>c'. caller_step c = Some c'")
  case True
  then obtain c' where "thread_step F Caller c = Some c'" by (auto simp: thread_step_def)
  then show ?thesis by blast
next
  case False
  with caller_enabled [OF nr] consider
    k where "cpc c = C_acquire k"
    | k where "cpc c = C_join k" "k < length (workers c)" "wpc (workers c ! k) \<noteq> W_exited"
    by (metis not_le)
  then show ?thesis
  proof cases
    case 1
    with d show ?thesis by (simp add: destroying_def)
  next
    case 2
    with d have "exiting k c" by (simp add: destroying_def)
    from exiting_progress [OF this 2(2,3), of F] obtain c' where "worker_step F k c = Some c'"
      by auto
    then have "thread_step F (Worker k) c = Some c'" by (simp add: thread_step_def)
    then show ?thesis by blast
  qed
qed

lemma destroying_complete:
  assumes "destroying m c"
  shows "\<exists>sch c'. exec F sch c = Some c' \<and> returned c'"
  using assms
proof (induction "cost F c" arbitrary: c rule: less_induct)
  case less
  show ?case
  proof (cases "returned c")
    case True
    then have "exec F [] c = Some c \<and> returned c" by simp
    then show ?thesis by blast
  next
    case False
    from destroying_progress [OF less.prems False, of F] obtain th c1
      where s: "thread_step F th c = Some c1" by auto
    from destroying_exec [of F "[th]" c c1 m] s less.prems have "destroying m c1" by simp
    from less.hyps [OF thread_step_cost [OF s] this]
    obtain sch c' where "exec F sch c1 = Some c'" "returned c'" by auto
    with s have "exec F (th # sch) c = Some c' \<and> returned c'" by simp
    then show ?thesis by blast
  qed
qed

lemma destroying_start:
  assumes "pool_ok p b"
  shows "destroying m (run_config p b m destroy)"
  using assms by (simp add: destroying_def pool_ok_def quiescent_def)

lemma destroying_returned:
  assumes "destroying m c" "returned c"
  shows "\<not> synced c" "start_sem c = 0"
    "\<And>j. j < length (workers c) \<Longrightarrow>
       wpc (workers c ! j) = W_exited \<and> stop_requested (workers c ! j)"
proof -
  from assms have ex: "exiting (length (workers c)) c" and ns: "\<not> synced c"
    by (simp_all add: destroying_def returned_def destroy_def)
  from ns show "\<not> synced c" .
  from ex show all: "wpc (workers c ! j) = W_exited \<and> stop_requested (workers c ! j)"
    if "j < length (workers c)" for j using that by (simp add: exiting_def)
  have "count_wpc (\<lambda>q. q = W_acquire) (workers c) = 0"
    by (rule count_wpc_none) (simp add: all)
  with ex show "start_sem c = 0" by (simp add: exiting_def)
qed

lemma ts_before_start:
  assumes "pool_ok p b"
  shows "ts_before (run_config p b m trigger_sync)"
  using assms by (simp add: ts_before_def pool_ok_def quiescent_def nostop_def trigger_sync_def)

lemma ts_before_worker_step: "ts_before c \<Longrightarrow> worker_step F i c = None"
  by (simp add: ts_before_def quiescent_worker_step)

lemma ts_before_caller_step:
  assumes b: "ts_before c" and s: "caller_step c = Some c'" and B: "0 < nbar F"
  shows "workers c' = workers c \<and> mem c' = mem c \<and> bar c' = bar c \<and>
     (ts_before c' \<or> ts_running F 0 c')"
proof (cases "cpc c = C_idle")
  case True
  with b s have "c' = c\<lparr>cpc := C_release, calls := [Sync]\<rparr>"
    by (auto simp: ts_before_def caller_step_def)
  with b show ?thesis by (simp add: ts_before_def)
next
  case False
  with b have r: "cpc c = C_release" "calls c = [Sync]" "quiescent c" "nostop c"
    "expected (bar c) = length (workers c)"
    by (auto simp: ts_before_def)
  with s have c': "c' = c\<lparr>start_sem := start_sem c + length (workers c), cpc := C_unsync\<rparr>"
    by (simp add: caller_step_def)
  from release_iteration [OF r(3,4) B] c' r have "ts_running F 0 c'"
    by (auto simp: ts_running_def)
  with c' show ?thesis by simp
qed

lemma ts_running_caller_step:
  assumes r: "ts_running F e c" and s: "caller_step c = Some c'"
  shows "workers c' = workers c \<and> mem c' = mem c \<and> bar c' = bar c \<and> ts_running F e c'"
proof -
  from r obtain k where it: "iteration F e k c" and ex: "expected (bar c) = length (workers c)"
    by (auto simp: ts_running_def)
  show ?thesis
  proof (cases "cpc c")
    case C_idle
    with r s have "c' = c\<lparr>cpc := C_check, calls := []\<rparr>" "\<not> synced c"
      by (auto simp: ts_running_def caller_step_def)
    with it ex show ?thesis by (auto simp: ts_running_def)
  next
    case C_unsync
    with r s have "c' = c\<lparr>synced := False, cpc := C_idle\<rparr>" "calls c = [Sync]"
      by (auto simp: ts_running_def caller_step_def)
    with it ex show ?thesis by (auto simp: ts_running_def)
  next
    case C_check
    with r s have "c' = c\<lparr>cpc := C_acquire 0\<rparr>" "calls c = []"
      by (auto simp: ts_running_def caller_step_def)
    with it ex show ?thesis by (auto simp: ts_running_def)
  next
    case (C_acquire n)
    with r have cs: "calls c = []" by (simp add: ts_running_def)
    show ?thesis
    proof (cases "length (workers c) \<le> n")
      case True
      with s C_acquire have "c' = c\<lparr>cpc := C_set\<rparr>" by (simp add: caller_step_def)
      with it ex cs show ?thesis by (auto simp: ts_running_def)
    next
      case False
      with s C_acquire have f: "finish_sem c \<noteq> 0"
        and c': "c' = c\<lparr>finish_sem := finish_sem c - 1, cpc := C_acquire (Suc n)\<rparr>"
        by (auto simp: caller_step_def split: if_splits)
      from iteration_consume [OF it f, of "C_acquire (Suc n)"] c' ex cs show ?thesis
        by (auto simp: ts_running_def)
    qed
  next
    case C_set
    with r s have "c' = c\<lparr>synced := True, cpc := C_idle\<rparr>" "calls c = []"
      by (auto simp: ts_running_def caller_step_def)
    with it ex show ?thesis by (auto simp: ts_running_def)
  next
    case C_release
    with r show ?thesis by (simp add: ts_running_def)
  next
    case (C_stop n)
    with r show ?thesis by (simp add: ts_running_def)
  next
    case (C_join n)
    with r show ?thesis by (simp add: ts_running_def)
  qed
qed

lemma ts_running_worker_step:
  assumes r: "ts_running F e c" and s: "worker_step F i c = Some c'" and B: "0 < nbar F"
  shows "ts_running F (next_epoch F i c e) c'"
proof -
  from r obtain k where it: "iteration F e k c" and ex: "expected (bar c) = length (workers c)"
    by (auto simp: ts_running_def)
  from iteration_worker_step_epoch [OF s it ex B] worker_step_frame(1-5) [OF s] r ex
  show ?thesis by (auto simp: ts_running_def split: cpc.splits)
qed

lemma ts_running_returned:
  assumes r: "ts_running F e c" and q: "quiescent c" and B: "0 < nbar F"
    and j: "j < length (workers c)"
  shows "e = nbar F"
proof -
  from r obtain k where it: "iteration F e k c" by (auto simp: ts_running_def)
  from q j have a: "wpc (workers c ! j) = W_acquire" by (simp add: quiescent_def)
  from count_wpc_pos [OF j, of "\<lambda>q. q = W_acquire"] a
  have "0 < count_wpc (\<lambda>q. q = W_acquire) (workers c)" by simp
  with it q have "e \<noteq> 0" by (auto simp: iteration_def quiescent_def split: if_splits)
  with iteration_nth [OF it j] a show ?thesis by simp
qed

text \<open>Induction over the runs of \<^verbatim>\<open>trigger_sync()\<close> from an idle pool.\<close>

lemma ts_run_induct [consumes 3, case_names start call release caller worker]:
  assumes run: "exec F sch c0 = Some c" and c0: "ts_before c0" and B: "0 < nbar F"
    and start: "Pb [] c0"
    and call: "\<And>sch c c'. \<lbrakk>exec F sch c0 = Some c; ts_before c; Pb sch c;
        caller_step c = Some c'; ts_before c'; workers c' = workers c; mem c' = mem c\<rbrakk>
        \<Longrightarrow> Pb (sch @ [Caller]) c'"
    and release: "\<And>sch c c'. \<lbrakk>exec F sch c0 = Some c; ts_before c; Pb sch c;
        caller_step c = Some c'; ts_running F 0 c'; workers c' = workers c; mem c' = mem c\<rbrakk>
        \<Longrightarrow> Pr 0 (sch @ [Caller]) c'"
    and caller: "\<And>sch c c' e. \<lbrakk>exec F sch c0 = Some c; ts_running F e c; Pr e sch c;
        caller_step c = Some c'; ts_running F e c'; workers c' = workers c; mem c' = mem c\<rbrakk>
        \<Longrightarrow> Pr e (sch @ [Caller]) c'"
    and worker: "\<And>sch c c' e i. \<lbrakk>exec F sch c0 = Some c; ts_running F e c; Pr e sch c;
        worker_step F i c = Some c'; ts_running F (next_epoch F i c e) c'\<rbrakk>
        \<Longrightarrow> Pr (next_epoch F i c e) (sch @ [Worker i]) c'"
  shows "(ts_before c \<and> Pb sch c) \<or> (\<exists>e. ts_running F e c \<and> Pr e sch c)"
  using run
proof (induction sch arbitrary: c rule: rev_induct)
  case Nil
  with c0 start show ?case by simp
next
  case (snoc th sch)
  from snoc.prems obtain c1 where e1: "exec F sch c0 = Some c1"
    and s: "thread_step F th c1 = Some c"
    by (auto simp: exec_append split: option.splits)
  from snoc.IH [OF e1] show ?case
  proof
    assume b: "ts_before c1 \<and> Pb sch c1"
    show ?thesis
    proof (cases th)
      case (Worker i)
      with s b ts_before_worker_step [of c1 F i] show ?thesis by (simp add: thread_step_def)
    next
      case Caller
      with s have cs: "caller_step c1 = Some c" by (simp add: thread_step_def)
      from ts_before_caller_step [OF _ cs B] b
      have fr: "workers c = workers c1" "mem c = mem c1"
        and alt: "ts_before c \<or> ts_running F 0 c" by auto
      from alt show ?thesis
      proof
        assume "ts_before c"
        with call [OF e1 _ _ cs this fr] b Caller show ?thesis by simp
      next
        assume "ts_running F 0 c"
        with release [OF e1 _ _ cs this fr] b Caller show ?thesis by auto
      qed
    qed
  next
    assume "\<exists>e. ts_running F e c1 \<and> Pr e sch c1"
    then obtain e where r: "ts_running F e c1" and p: "Pr e sch c1" by auto
    show ?thesis
    proof (cases th)
      case Caller
      with s have cs: "caller_step c1 = Some c" by (simp add: thread_step_def)
      from ts_running_caller_step [OF r cs]
      have fr: "workers c = workers c1" "mem c = mem c1" and r': "ts_running F e c" by auto
      from caller [OF e1 r p cs r' fr] r' Caller show ?thesis by auto
    next
      case (Worker i)
      with s have ws: "worker_step F i c1 = Some c" by (simp add: thread_step_def)
      from ts_running_worker_step [OF r ws B] have r': "ts_running F (next_epoch F i c1 e) c" .
      from worker [OF e1 r p ws r'] r' Worker show ?thesis by auto
    qed
  qed
qed

lemma events_snoc:
  assumes "exec F sch c0 = Some c" "thread_step F th c = Some c'"
  shows "events F i (sch @ [th]) c0 =
     events F i sch c0 @ (if th = Worker i then event_at (workers c ! i) else [])"
  using assms
proof (induction sch arbitrary: c0)
  case Nil
  then show ?case by simp
next
  case (Cons x sch)
  then obtain c1 where s: "thread_step F x c0 = Some c1" and e: "exec F sch c1 = Some c"
    by (auto split: option.splits)
  from Cons.IH [OF e Cons.prems(2)] s show ?case by simp
qed

lemma ts_events_invariant:
  assumes run: "exec F sch c0 = Some c" and c0: "ts_before c0" and B: "0 < nbar F"
  shows "(ts_before c \<and> (\<forall>i < length (workers c). events F i sch c0 = []))
     \<or> (\<exists>e. ts_running F e c \<and>
           (\<forall>i < length (workers c). events F i sch c0 = events_so_far e (wpc (workers c ! i))))"
  using run c0 B
proof (induction rule: ts_run_induct
    [where Pb = "\<lambda>sch c. \<forall>i < length (workers c). events F i sch c0 = []"
       and Pr = "\<lambda>e sch c. \<forall>i < length (workers c).
          events F i sch c0 = events_so_far e (wpc (workers c ! i))"])
  case start
  show ?case by simp
next
  case (call sch c c')
  then have "thread_step F Caller c = Some c'" by (simp add: thread_step_def)
  from events_snoc [OF call(1) this] call show ?case by simp
next
  case (release sch c c')
  then have "thread_step F Caller c = Some c'" by (simp add: thread_step_def)
  from events_snoc [OF release(1) this] release show ?case
    by (simp add: ts_before_def quiescent_def)
next
  case (caller sch c c' e)
  then have "thread_step F Caller c = Some c'" by (simp add: thread_step_def)
  from events_snoc [OF caller(1) this] caller show ?case by simp
next
  case (worker sch c c' e i)
  from worker(2) obtain k where it: "iteration F e k c"
    and ex: "expected (bar c) = length (workers c)"
    by (auto simp: ts_running_def)
  from worker(4) have ts: "thread_step F (Worker i) c = Some c'" by (simp add: thread_step_def)
  note sn = events_snoc [OF worker(1) ts]
  from worker(4) have i: "i < length (workers c)"
    by (auto simp: worker_step_def split: if_splits)
  note len = worker_step_frame(4) [OF worker(4)]
  show ?case
  proof (intro allI impI)
    fix j assume "j < length (workers c')"
    with len have j: "j < length (workers c)" by simp
    from worker(3) j have old: "events F j sch c0 = events_so_far e (wpc (workers c ! j))"
      by simp
    show "events F j (sch @ [Worker i]) c0
        = events_so_far (next_epoch F i c e) (wpc (workers c' ! j))"
    proof (cases "j = i")
      case False
      from other_thread_step_wpc(1) [OF ts _ j] False
      have same: "wpc (workers c' ! j) = wpc (workers c ! j)" by auto
      have "events_so_far (next_epoch F i c e) (wpc (workers c ! j))
          = events_so_far e (wpc (workers c ! j))"
      proof (cases "last_arrival F i c")
        case True
        from last_arrival_others [OF it ex True i j False] show ?thesis by auto
      next
        case False
        then show ?thesis by (simp add: next_epoch_def)
      qed
      with sn [of j] old same False show ?thesis by simp
    next
      case True
      note oki = iteration_nth [OF it i]
      from worker(4) show ?thesis
      proof (cases rule: worker_step_cases)
        case acquire
        with it have "e = 0" by (auto simp: iteration_def split: if_splits)
        with acquire sn [of i] old True i show ?thesis
          by (simp add: event_at_def nth_set_wpc next_epoch_def last_arrival_def)
      next
        case stop
        with oki show ?thesis by simp
      next
        case enter
        with sn [of i] old True i show ?thesis
          by (simp add: event_at_def nth_set_wpc)
      next
        case (ret n)
        with sn [of i] old True i show ?thesis
          by (simp add: event_at_def nth_set_wpc)
      next
        case (act n a l' m')
        with sn [of i] old True i show ?thesis
          by (simp add: event_at_def)
      next
        case (last_arrival n)
        with sn [of i] old True i show ?thesis
          by (simp add: event_at_def nth_set_wpc)
      next
        case (arrival n)
        with sn [of i] old True i show ?thesis
          by (simp add: event_at_def nth_set_wpc)
      next
        case (pass n p)
        with sn [of i] old True i show ?thesis
          by (simp add: event_at_def nth_set_wpc)
      next
        case release
        with oki B have "e \<noteq> 0" by auto
        with release sn [of i] old True i show ?thesis
          by (simp add: event_at_def nth_set_wpc next_epoch_def last_arrival_def)
      qed
    qed
  qed
qed

text \<open>
  In every returned run of \<^verbatim>\<open>trigger_sync()\<close> from an idle pool whose bound function
  has a barrier, every worker has woken once, invoked the function once and incremented
  the finish signal once.
\<close>

lemma trigger_sync_events:
  assumes ok: "pool_ok p b" and B: "0 < nbar F"
    and run: "exec F sch (run_config p b m trigger_sync) = Some c" and ret: "returned c"
    and i: "i < length (workers p)"
  shows "events F i sch (run_config p b m trigger_sync) = [Wake, Invoke, Finish]"
proof -
  let ?c0 = "run_config p b m trigger_sync"
  have inv0: "pool_inv F ?c0"
    using ok B by (intro pool_inv_start) (simp_all add: trigger_sync_def)
  from same_shape_exec [OF run] have len: "length (workers c) = length (workers p)"
    by (simp add: same_shape_def)
  from trigger_sync_returns_synced [OF run ret] have sy: "synced c" .
  from returned_synced_quiescent [OF pool_inv_exec [OF run inv0] _ sy] ret
  have q: "quiescent c" by (simp add: returned_def)
  from ret have nb: "\<not> ts_before c" by (simp add: ts_before_def returned_def)
  with ts_events_invariant [OF run ts_before_start [OF ok] B]
  obtain e where r: "ts_running F e c"
    and ev: "\<forall>i < length (workers c). events F i sch ?c0 = events_so_far e (wpc (workers c ! i))"
    by auto
  from i len have i': "i < length (workers c)" by simp
  from ts_running_returned [OF r q B i'] B have "e \<noteq> 0" by simp
  moreover from q i' have "wpc (workers c ! i) = W_acquire" by (simp add: quiescent_def)
  ultimately show ?thesis using ev i' by simp
qed




lemma step_iff_returned_run:
  fixes gm :: "'v::plus grid_model"
  assumes ok: "stepper_ok s"
  shows "step gm sch dt s = Some (r, s') \<longleftrightarrow>
     (\<exists>c. exec (step_closure gm (nthreads s)) sch (step_start dt s) = Some c \<and> returned c \<and>
          r = t (data s) + dt \<and>
          s' = s\<lparr>step_workers := pool_of c, step_barrier := bar c,
                 data := (mem c)\<lparr>t := t (data s) + dt\<rparr>\<rparr>)"
proof
  assume "step gm sch dt s = Some (r, s')"
  then obtain c where run: "step_run gm sch dt s = Some c" and ret: "returned c"
    and r: "r = t (mem c) + dt"
    and s': "s' = s\<lparr>step_workers := pool_of c, step_barrier := bar c,
                     data := (mem c)\<lparr>t := t (mem c) + dt\<rparr>\<rparr>"
    by (auto simp: step_def split: option.splits if_splits)
  from step_run_facts(1) [OF ok run] run ret r s'
  show "\<exists>c. exec (step_closure gm (nthreads s)) sch (step_start dt s) = Some c \<and> returned c \<and>
          r = t (data s) + dt \<and>
          s' = s\<lparr>step_workers := pool_of c, step_barrier := bar c,
                 data := (mem c)\<lparr>t := t (data s) + dt\<rparr>\<rparr>"
    by (auto simp: step_run_def)
next
  assume "\<exists>c. exec (step_closure gm (nthreads s)) sch (step_start dt s) = Some c \<and> returned c \<and>
          r = t (data s) + dt \<and>
          s' = s\<lparr>step_workers := pool_of c, step_barrier := bar c,
                 data := (mem c)\<lparr>t := t (data s) + dt\<rparr>\<rparr>"
  then obtain c where run: "step_run gm sch dt s = Some c" and ret: "returned c"
    and r: "r = t (data s) + dt"
    and s': "s' = s\<lparr>step_workers := pool_of c, step_barrier := bar c,
                     data := (mem c)\<lparr>t := t (data s) + dt\<rparr>\<rparr>"
    by (auto simp: step_run_def)
  from step_run_facts(1) [OF ok run] run ret r s'
  show "step gm sch dt s = Some (r, s')" by (simp add: step_def)
qed

lemma step_events:
  fixes gm :: "'v::plus grid_model"
  assumes ok: "stepper_ok s" and st: "step gm sch dt s = Some (r, s')" and i: "i < nthreads s"
  shows "events (step_closure gm (nthreads s)) i sch (step_start dt s) = [Wake, Invoke, Finish]"
proof -
  from st obtain c where run: "exec (step_closure gm (nthreads s)) sch (step_start dt s) = Some c"
    and ret: "returned c"
    by (auto simp: step_def step_run_def split: option.splits if_splits)
  from ok have p: "pool_ok (step_workers s) (step_barrier s)"
    and l: "length (workers (step_workers s)) = nthreads s"
    by (simp_all add: stepper_ok_def)
  from run ret i l show ?thesis
    unfolding step_start_def by (intro trigger_sync_events [OF p]) simp_all
qed

text \<open>
  C3. \<^verbatim>\<open>step(time_step)\<close> on an object whose pools are idle, under every schedule of
  the caller and the workers. The call returns exactly when the schedule is a returned
  run of \<^verbatim>\<open>trigger(); sync();\<close> on the update pool that starts with \<^verbatim>\<open>iter_time_step\<close>
  already holding \<open>time_step\<close>; its result is the clock before the call plus
  \<open>time_step\<close>, and the object afterwards is the pool, the barrier and the memory of
  the end of that run with the clock advanced by \<open>time_step\<close>. In that run every worker
  of the update pool has woken once, invoked the closure once and incremented the finish
  signal once: one cycle. Throughout the run \<^verbatim>\<open>iter_time_step\<close> holds \<open>time_step\<close> and
  the clock is untouched; no run is longer than a fixed bound and every run that has not
  returned can take a further step, so the call returns.
\<close>

theorem step_publishes_syncs_advances:
  fixes gm :: "'v::plus grid_model"
  assumes "stepper_ok s"
  shows "step_start time_step s =
       run_config (step_workers s) (step_barrier s) ((data s)\<lparr>iter_time_step := time_step\<rparr>)
         [Trigger, Sync] \<and>
     (\<forall>sch r s'. step gm sch time_step s = Some (r, s') \<longleftrightarrow>
        (\<exists>c. exec (step_closure gm (nthreads s)) sch (step_start time_step s) = Some c \<and>
             returned c \<and> r = t (data s) + time_step \<and>
             s' = s\<lparr>step_workers := pool_of c, step_barrier := bar c,
                    data := (mem c)\<lparr>t := t (data s) + time_step\<rparr>\<rparr>)) \<and>
     (\<forall>sch r s'. step gm sch time_step s = Some (r, s') \<longrightarrow>
        r = t (data s) + time_step \<and> t (data s') = t (data s) + time_step \<and>
        iter_time_step (data s') = time_step \<and> stepper_ok s' \<and>
        (\<forall>i < nthreads s.
           events (step_closure gm (nthreads s)) i sch (step_start time_step s)
             = [Wake, Invoke, Finish])) \<and>
     (\<forall>sch c. exec (step_closure gm (nthreads s)) sch (step_start time_step s) = Some c \<longrightarrow>
        iter_time_step (mem c) = time_step \<and> t (mem c) = t (data s) \<and>
        length sch \<le> cost (step_closure gm (nthreads s)) (step_start time_step s) \<and>
        (returned c \<or> (\<exists>th c'. thread_step (step_closure gm (nthreads s)) th c = Some c'))) \<and>
     (\<exists>sch r s'. step gm sch time_step s = Some (r, s'))"
proof (intro conjI allI impI)
  show "step_start time_step s =
       run_config (step_workers s) (step_barrier s) ((data s)\<lparr>iter_time_step := time_step\<rparr>)
         [Trigger, Sync]"
    by (simp add: step_start_def trigger_sync_def)
  show "\<exists>sch r s'. step gm sch time_step s = Some (r, s')"
    using assms by (rule step_returns)
  show "step gm sch time_step s = Some (r, s') \<longleftrightarrow>
        (\<exists>c. exec (step_closure gm (nthreads s)) sch (step_start time_step s) = Some c \<and>
             returned c \<and> r = t (data s) + time_step \<and>
             s' = s\<lparr>step_workers := pool_of c, step_barrier := bar c,
                    data := (mem c)\<lparr>t := t (data s) + time_step\<rparr>\<rparr>)" for sch r s'
    using assms by (rule step_iff_returned_run)
next
  fix sch r s' assume st: "step gm sch time_step s = Some (r, s')"
  from step_result [OF assms st]
  show "r = t (data s) + time_step" "t (data s') = t (data s) + time_step"
    "iter_time_step (data s') = time_step" "stepper_ok s'" by simp_all
  fix i assume "i < nthreads s"
  with assms st
  show "events (step_closure gm (nthreads s)) i sch (step_start time_step s)
      = [Wake, Invoke, Finish]"
    by (rule step_events)
next
  fix sch c
  assume "exec (step_closure gm (nthreads s)) sch (step_start time_step s) = Some c"
  then have run: "step_run gm sch time_step s = Some c" by (simp add: step_run_def)
  from step_run_facts [OF assms run]
  show "iter_time_step (mem c) = time_step" "t (mem c) = t (data s)" by simp_all
  from step_run_bound(1) [OF assms run]
  show "length sch \<le> cost (step_closure gm (nthreads s)) (step_start time_step s)" .
  from step_run_bound(2) [OF assms run] run
  show "returned c \<or> (\<exists>th c'. thread_step (step_closure gm (nthreads s)) th c = Some c')"
    by (auto simp: step_run_snoc)
qed

theorem step_publishes_syncs_advances_witness:
  "stepper_ok example_stepper \<and>
   map_option fst (step example_model step_schedule 3 example_stepper) = Some 13 \<and>
   map_option (\<lambda>rs. t (data (snd rs))) (step example_model step_schedule 3 example_stepper)
     = Some 13 \<and>
   events (step_closure example_model (nthreads example_stepper)) 1 step_schedule
     (step_start 3 example_stepper) = [Wake, Invoke, Finish] \<and>
   map_option (\<lambda>c. iter_time_step (mem c))
     (exec (step_closure example_model (nthreads example_stepper)) (take 7 step_schedule)
        (step_start 3 example_stepper)) = Some 3"
proof -
  have ok: "stepper_ok example_stepper"
    unfolding example_stepper_def by (rule stepper_ok_constructed)
  have n: "nthreads example_stepper = 2"
    by (simp add: example_stepper_def constructed_def)
  have "step example_model step_schedule 3 example_stepper \<noteq> None"
    by (simp add: example_defs step_schedule_def)
  then obtain r s' where st: "step example_model step_schedule 3 example_stepper = Some (r, s')"
    by auto
  have "exec (step_closure example_model (nthreads example_stepper)) (take 7 step_schedule)
        (step_start 3 example_stepper) \<noteq> None"
    by (simp add: example_defs step_schedule_def)
  then obtain c where run: "exec (step_closure example_model (nthreads example_stepper))
        (take 7 step_schedule) (step_start 3 example_stepper) = Some c"
    by auto
  have t0: "t (data example_stepper) = 10"
    by (simp add: example_stepper_def constructed_def example_data_def)
  note adv = step_publishes_syncs_advances [OF ok, where time_step = 3 and gm = example_model]
  from adv st have "r = t (data example_stepper) + 3"
    "t (data s') = t (data example_stepper) + 3"
    "\<forall>i < nthreads example_stepper.
       events (step_closure example_model (nthreads example_stepper)) i step_schedule
         (step_start 3 example_stepper) = [Wake, Invoke, Finish]"
    by blast+
  moreover from adv run have "iter_time_step (mem c) = 3" by blast
  ultimately show ?thesis using st run ok t0 n by simp
qed




text \<open>Where the addition is associative with neutral element 0 the clock is the sum.\<close>

lemma steps_clock_sum:
  fixes gm :: "'v::monoid_add grid_model"
  assumes "stepper_ok s" "steps gm xs s = Some s'"
  shows "t (data s') = t (data s) + sum_list (map snd xs)"
  using steps_clock [OF assms] by (simp add: foldl_plus_sum_list)

lemma destroying_shape:
  assumes "destroying m c"
  shows "quiescent c \<or> (\<exists>n. exiting n c)"
  using assms by (cases "cpc c") (auto simp: destroying_def)

lemma destroying_events:
  assumes run: "exec F sch c0 = Some c" and d0: "destroying m c0" and q0: "quiescent c0"
  shows "length (workers c) = length (workers c0) \<and>
     (\<forall>i < length (workers c). events F i sch c0 = events_leaving (wpc (workers c ! i)))"
  using run
proof (induction sch arbitrary: c rule: rev_induct)
  case Nil
  with q0 show ?case by (simp add: quiescent_def)
next
  case (snoc th sch)
  then obtain c1 where e: "exec F sch c0 = Some c1" and s: "thread_step F th c1 = Some c"
    by (auto simp: exec_append split: option.splits)
  from snoc.IH [OF e] have len: "length (workers c1) = length (workers c0)"
    and old: "\<And>i. i < length (workers c1) \<Longrightarrow>
        events F i sch c0 = events_leaving (wpc (workers c1 ! i))"
    by simp_all
  from destroying_exec [OF e d0] have d1: "destroying m c1" .
  have l: "length (workers c) = length (workers c1)"
    using same_shape_thread_step [OF s] by (simp add: same_shape_def)
  have "events F i (sch @ [th]) c0 = events_leaving (wpc (workers c ! i))"
    if i: "i < length (workers c1)" for i
  proof (cases "th = Worker i")
    case False
    from other_thread_step_wpc(1) [OF s False i] events_snoc [OF e s, of i] old [OF i] False
    show ?thesis by simp
  next
    case True
    with s have ws: "worker_step F i c1 = Some c" by (simp add: thread_step_def)
    with quiescent_worker_step [of c1 F i] have "\<not> quiescent c1" by auto
    with destroying_shape [OF d1] obtain n where ex: "exiting n c1" by auto
    note w = exiting_nth [OF ex i]
    note sn = events_snoc [OF e s, of i]
    from ws show ?thesis
    proof (cases rule: worker_step_cases)
      case acquire
      with sn old [OF i] True i show ?thesis by (simp add: event_at_def nth_set_wpc)
    next
      case stop
      with sn old [OF i] True i show ?thesis by (simp add: event_at_def nth_set_wpc)
    next
      case enter
      with w show ?thesis by simp
    next
      case (ret k)
      with w show ?thesis by simp
    next
      case (act k a l' m')
      with w show ?thesis by simp
    next
      case (last_arrival k)
      with w show ?thesis by simp
    next
      case (arrival k)
      with w show ?thesis by simp
    next
      case (pass k p)
      with w show ?thesis by simp
    next
      case release
      with w show ?thesis by simp
    qed
  qed
  with l len show ?case by simp
qed

text \<open>
  C8. The destructor on an idle pool (every worker parked at the start signal, as after
  construction and after every \<^verbatim>\<open>trigger_sync()\<close>), under every schedule. The memory
  is never touched and the finish signal is never incremented, and the events of every
  worker are at every moment a beginning of: woken once, then out of the loop; so no
  worker runs the bound function, every worker is woken by the one \<^verbatim>\<open>trigger()\<close>, and
  no \<^verbatim>\<open>sync()\<close> takes part. No run is longer than a fixed bound and every run that has
  not returned can take a further step, so the destruction completes; when it has,
  cancellation has been requested on every worker, every worker has been woken once and
  has left its loop (the joins have succeeded), the one \<^verbatim>\<open>trigger()\<close> has left
  \<^verbatim>\<open>synced\<close> false, and its start permits are used up.
\<close>

theorem destruction_completes:
  assumes "pool_ok p b"
  shows "(\<forall>sch c. exec F sch (run_config p b m destroy) = Some c \<longrightarrow>
            mem c = m \<and> finish_sem c = 0 \<and>
            length sch \<le> cost F (run_config p b m destroy) \<and>
            (returned c \<or> (\<exists>th c'. thread_step F th c = Some c')) \<and>
            (\<forall>i < length (workers p).
               events F i sch (run_config p b m destroy) = [] \<or>
               events F i sch (run_config p b m destroy) = [Wake] \<or>
               events F i sch (run_config p b m destroy) = [Wake, Exit_loop]) \<and>
            (returned c \<longrightarrow>
               \<not> synced c \<and> start_sem c = 0 \<and> length (workers c) = length (workers p) \<and>
               (\<forall>j < length (workers p).
                  wpc (workers c ! j) = W_exited \<and> stop_requested (workers c ! j) \<and>
                  events F j sch (run_config p b m destroy) = [Wake, Exit_loop]))) \<and>
         (\<exists>sch c. exec F sch (run_config p b m destroy) = Some c \<and> returned c)"
proof (intro conjI allI impI)
  show "\<exists>sch c. exec F sch (run_config p b m destroy) = Some c \<and> returned c"
    using destroying_start [OF assms] by (rule destroying_complete)
next
  fix sch c assume run: "exec F sch (run_config p b m destroy) = Some c"
  from destroying_exec [OF run destroying_start [OF assms]] have d: "destroying m c" .
  then show "mem c = m" "finish_sem c = 0" by (simp_all add: destroying_def)
  from exec_cost [OF run] show "length sch \<le> cost F (run_config p b m destroy)" by simp
  from destroying_progress [OF d, of F] show "returned c \<or> (\<exists>th c'. thread_step F th c = Some c')"
    by blast
  from assms have q: "quiescent (run_config p b m destroy)"
    by (simp add: pool_ok_def quiescent_def)
  from destroying_events [OF run destroying_start [OF assms] q]
  have len: "length (workers c) = length (workers p)"
    and ev: "\<And>i. i < length (workers p) \<Longrightarrow>
      events F i sch (run_config p b m destroy) = events_leaving (wpc (workers c ! i))"
    by simp_all
  {
    fix i assume "i < length (workers p)"
    from ev [OF this]
    show "events F i sch (run_config p b m destroy) = [] \<or>
          events F i sch (run_config p b m destroy) = [Wake] \<or>
          events F i sch (run_config p b m destroy) = [Wake, Exit_loop]"
      by (cases "wpc (workers c ! i)") simp_all
  }
  assume r: "returned c"
  from destroying_returned [OF d r] show "\<not> synced c" "start_sem c = 0" by simp_all
  from len show "length (workers c) = length (workers p)" .
  fix j assume j: "j < length (workers p)"
  with destroying_returned(3) [OF d r, of j] len
  show "wpc (workers c ! j) = W_exited" "stop_requested (workers c ! j)" by simp_all
  with ev [OF j] show "events F j sch (run_config p b m destroy) = [Wake, Exit_loop]" by simp
qed

theorem destruction_completes_witness:
  "pool_ok (step_workers example_stepper) (step_barrier example_stepper) \<and>
   map_option returned (exec (step_closure example_model 2) destroy_schedule example_destroy)
     = Some True \<and>
   map_option (\<lambda>c. (wpc (workers c ! 0), wpc (workers c ! 1)))
     (exec (step_closure example_model 2) destroy_schedule example_destroy)
     = Some (W_exited, W_exited) \<and>
   map_option mem (exec (step_closure example_model 2) destroy_schedule example_destroy)
     = Some example_data \<and>
   events (step_closure example_model 2) 1 destroy_schedule example_destroy = [Wake, Exit_loop]"
proof -
  have ok: "pool_ok (step_workers example_stepper) (step_barrier example_stepper)"
    using stepper_ok_constructed [of 2 example_data]
    by (simp add: stepper_ok_def example_stepper_def)
  have lp: "length (workers (step_workers example_stepper)) = 2"
    by (simp add: example_stepper_def constructed_def new_pool_def)
  have "map_option (\<lambda>c. (returned c, length (workers c)))
      (exec (step_closure example_model 2) destroy_schedule example_destroy) = Some (True, 2)"
    by (simp add: example_destroy_defs)
  then obtain c where run: "exec (step_closure example_model 2) destroy_schedule
        (run_config (step_workers example_stepper) (step_barrier example_stepper) example_data
           destroy) = Some c"
    and r: "returned c" and l: "length (workers c) = 2"
    unfolding example_destroy_def by auto
  from destruction_completes [OF ok, of "step_closure example_model 2" example_data] run r
  have m: "mem c = example_data"
    and w: "\<forall>j < length (workers (step_workers example_stepper)).
       wpc (workers c ! j) = W_exited \<and> stop_requested (workers c ! j) \<and>
       events (step_closure example_model 2) j destroy_schedule
         (run_config (step_workers example_stepper) (step_barrier example_stepper) example_data
           destroy) = [Wake, Exit_loop]"
    by blast+
  from w lp have "wpc (workers c ! 0) = W_exited" "wpc (workers c ! 1) = W_exited"
    "events (step_closure example_model 2) 1 destroy_schedule
         (run_config (step_workers example_stepper) (step_barrier example_stepper) example_data
           destroy) = [Wake, Exit_loop]"
    by simp_all
  with m run r ok show ?thesis by (simp add: example_destroy_def)
qed

lemma outstanding_worker_step:
  assumes "worker_step F i c = Some c'"
  shows "outstanding c' = outstanding c"
  using assms
proof (cases rule: worker_step_cases)
  case acquire
  with count_set_wpc [of i "workers c" "\<lambda>q. q \<noteq> W_acquire" W_check]
  show ?thesis by (simp add: outstanding_def)
next
  case stop
  with count_set_wpc [of i "workers c" "\<lambda>q. q \<noteq> W_acquire" W_exited]
  show ?thesis by (simp add: outstanding_def)
next
  case enter
  with count_set_wpc [of i "workers c" "\<lambda>q. q \<noteq> W_acquire" "W_run 0"]
  show ?thesis by (simp add: outstanding_def)
next
  case (ret k)
  with count_set_wpc [of i "workers c" "\<lambda>q. q \<noteq> W_acquire" W_release]
  show ?thesis by (simp add: outstanding_def)
next
  case (act k a l' m')
  with count_wpc_update [of i "workers c" "\<lambda>q. q \<noteq> W_acquire"
      "(workers c ! i)\<lparr>wpc := W_run (Suc k), wlocal := l'\<rparr>"]
  show ?thesis by (simp add: outstanding_def)
next
  case (last_arrival k)
  with count_set_wpc [of i "workers c" "\<lambda>q. q \<noteq> W_acquire" "W_run (Suc k)"]
  show ?thesis by (simp add: outstanding_def)
next
  case (arrival k)
  with count_set_wpc [of i "workers c" "\<lambda>q. q \<noteq> W_acquire" "W_wait k (phase (bar c))"]
  show ?thesis by (simp add: outstanding_def)
next
  case (pass k p)
  with count_set_wpc [of i "workers c" "\<lambda>q. q \<noteq> W_acquire" "W_run (Suc k)"]
  show ?thesis by (simp add: outstanding_def)
next
  case release
  with count_set_wpc [of i "workers c" "\<lambda>q. q \<noteq> W_acquire" W_acquire]
  show ?thesis by (simp add: outstanding_def)
qed

lemma flag_inv_worker_step:
  assumes s: "worker_step F i c = Some c'" and inv: "flag_inv c"
  shows "flag_inv c'"
  using inv worker_step_frame(1-4) [OF s] outstanding_worker_step [OF s]
  by (cases "cpc c") (simp_all add: flag_inv_def)

lemma outstanding_stop:
  "outstanding (c\<lparr>workers := (workers c)[k := (workers c ! k)\<lparr>stop_requested := True\<rparr>]\<rparr>)
     = outstanding c"
proof -
  have "count_wpc (\<lambda>q. q \<noteq> W_acquire) ((workers c)[k := (workers c ! k)\<lparr>stop_requested := True\<rparr>])
      = count_wpc (\<lambda>q. q \<noteq> W_acquire) (workers c)"
  proof (cases "k < length (workers c)")
    case True
    then show ?thesis by (intro count_wpc_cong) (auto simp: nth_list_update)
  next
    case False
    then have "(workers c)[k := (workers c ! k)\<lparr>stop_requested := True\<rparr>] = workers c"
      by (intro list_update_beyond) simp
    then show ?thesis by (rule arg_cong)
  qed
  then show ?thesis by (simp add: outstanding_def)
qed

lemma outstanding_simps [simp]:
  "outstanding (c\<lparr>cpc := x\<rparr>) = outstanding c"
  "outstanding (c\<lparr>calls := cs\<rparr>) = outstanding c"
  "outstanding (c\<lparr>synced := sy\<rparr>) = outstanding c"
  "outstanding (c\<lparr>start_sem := n\<rparr>) = outstanding c - start_sem c + n"
  by (simp_all add: outstanding_def)

lemma flag_inv_caller_step:
  assumes s: "caller_step c = Some c'" and inv: "flag_inv c"
  shows "flag_inv c'"
proof (cases "cpc c")
  case C_idle
  with s obtain x cs where cs: "calls c = x # cs"
    by (cases "calls c") (auto simp: caller_step_def)
  with s C_idle inv show ?thesis
    by (cases x) (auto simp: caller_step_def flag_inv_def)
next
  case C_release
  with s inv show ?thesis by (auto simp: caller_step_def flag_inv_def outstanding_def)
next
  case C_unsync
  with s inv show ?thesis by (auto simp: caller_step_def flag_inv_def)
next
  case C_check
  with s inv show ?thesis by (auto simp: caller_step_def flag_inv_def split: if_splits)
next
  case (C_acquire k)
  with s inv show ?thesis
    by (auto simp: caller_step_def flag_inv_def outstanding_def split: if_splits)
next
  case C_set
  with s inv show ?thesis by (auto simp: caller_step_def flag_inv_def)
next
  case (C_stop k)
  with s inv show ?thesis
    by (auto simp: caller_step_def flag_inv_def outstanding_stop split: if_splits)
next
  case (C_join k)
  with s inv show ?thesis by (auto simp: caller_step_def flag_inv_def split: if_splits)
qed

lemma flag_inv_exec:
  "exec F sch c = Some c' \<Longrightarrow> flag_inv c \<Longrightarrow> flag_inv c'"
proof (induction sch arbitrary: c)
  case Nil
  then show ?case by simp
next
  case (Cons th sch)
  then obtain c1 where s: "thread_step F th c = Some c1" and e: "exec F sch c1 = Some c'"
    by (auto split: option.splits)
  have "flag_inv c1"
  proof (cases th)
    case Caller
    with s Cons.prems(2) show ?thesis by (auto simp: thread_step_def intro: flag_inv_caller_step)
  next
    case (Worker i)
    with s Cons.prems(2) show ?thesis by (auto simp: thread_step_def intro: flag_inv_worker_step)
  qed
  with Cons.IH e show ?case by blast
qed

lemma flag_inv_new_pool:
  assumes "paired True cs"
  shows "flag_inv (run_config (new_pool l0 args) b m cs)"
proof -
  have "count_wpc (\<lambda>q. q \<noteq> W_acquire) (map (new_worker l0) args) = 0"
    by (rule count_wpc_none) (simp add: new_worker_def)
  with assms show ?thesis
    by (simp add: flag_inv_def outstanding_def new_pool_def)
qed

lemma synced_sync_returns:
  assumes "cpc c = C_idle" "synced c" "calls c = Sync # rest"
  shows "exec F [Caller, Caller] c = Some (c\<lparr>calls := rest\<rparr>)"
  using assms by (simp add: thread_step_def caller_step_def)

lemmas sync_twice_defs =
  sync_twice_start_def sync_twice_schedule_def
  example_model_def example_data_def new_pool_def new_barrier_def
  new_worker_def thread_step_def worker_step_def caller_step_def step_closure_def
  range_act_def update_h_act_def update_g_act_def set_wpc_def returned_def
  run_config_def pool.extend_def Let_def

text \<open>
  C5. A pool as its constructor makes it, with any bound function, and any sequence of
  calls in which no \<^verbatim>\<open>trigger()\<close> follows another without a \<^verbatim>\<open>sync()\<close> in between (the
  calls of the destructor included), under every schedule. Whenever the caller is outside
  the methods of the pool, the outstanding work (start permits not yet taken, workers
  inside an iteration, finish increments not yet consumed) is nothing when \<^verbatim>\<open>synced\<close> is
  true and one unit per worker when it is false; so for a pool that has a worker
  \<^verbatim>\<open>synced\<close> is true exactly when nothing is outstanding. The last statement of
  \<^verbatim>\<open>trigger()\<close> sets the flag to false with one unit per worker outstanding, and the last
  statement of \<^verbatim>\<open>sync()\<close> sets it to true with nothing outstanding. While the flag is
  true outside the methods no worker can take a step and the finish signal is 0, and a
  \<^verbatim>\<open>sync()\<close> called then returns after its test, leaving the pool, the barrier and the
  memory exactly as they were.
\<close>

theorem synced_iff_nothing_outstanding:
  assumes "paired True cs"
  shows "\<forall>sch c. exec F sch (run_config (new_pool l0 args) b m cs) = Some c \<longrightarrow>
     (cpc c = C_idle \<longrightarrow>
        outstanding c = (if synced c then 0 else length args) \<and>
        (args \<noteq> [] \<longrightarrow> (synced c \<longleftrightarrow> outstanding c = 0))) \<and>
     (cpc c = C_unsync \<longrightarrow>
        (\<exists>c'. caller_step c = Some c' \<and> cpc c' = C_idle \<and> \<not> synced c' \<and>
              outstanding c' = length args)) \<and>
     (cpc c = C_set \<longrightarrow>
        (\<exists>c'. caller_step c = Some c' \<and> cpc c' = C_idle \<and> synced c' \<and> outstanding c' = 0)) \<and>
     (cpc c = C_idle \<and> synced c \<longrightarrow>
        finish_sem c = 0 \<and> (\<forall>i. worker_step F i c = None) \<and>
        (\<forall>rest. calls c = Sync # rest \<longrightarrow>
           exec F [Caller, Caller] c = Some (c\<lparr>calls := rest\<rparr>)))"
proof (intro allI impI)
  fix sch c assume run: "exec F sch (run_config (new_pool l0 args) b m cs) = Some c"
  from flag_inv_exec [OF run flag_inv_new_pool [OF assms]] have inv: "flag_inv c" .
  from same_shape_exec [OF run] have len: "length (workers c) = length args"
    by (simp add: same_shape_def new_pool_def)
  have idle: "outstanding c = (if synced c then 0 else length args)" if "cpc c = C_idle"
    using inv that len by (simp add: flag_inv_def)
  have quiet: "finish_sem c = 0 \<and> (\<forall>i. worker_step F i c = None)"
    if i: "cpc c = C_idle" and sy: "synced c"
  proof -
    from idle [OF i] sy have z: "start_sem c = 0" "finish_sem c = 0"
      "count_wpc (\<lambda>q. q \<noteq> W_acquire) (workers c) = 0"
      by (simp_all add: outstanding_def)
    have parked: "wpc (workers c ! j) = W_acquire" if "j < length (workers c)" for j
    proof (rule ccontr)
      assume "wpc (workers c ! j) \<noteq> W_acquire"
      with that have "workers c ! j \<in> set (filter (\<lambda>w. wpc w \<noteq> W_acquire) (workers c))"
        by simp
      with z(3) show False by (simp add: count_wpc_def)
    qed
    have "worker_step F j c = None" for j
    proof (cases "j < length (workers c)")
      case True
      with parked [of j] z(1)
      show ?thesis by (simp add: worker_step_def Let_def)
    next
      case False
      then show ?thesis by (simp add: worker_step_def)
    qed
    with z(2) show ?thesis by simp
  qed
  show "(cpc c = C_idle \<longrightarrow>
        outstanding c = (if synced c then 0 else length args) \<and>
        (args \<noteq> [] \<longrightarrow> (synced c \<longleftrightarrow> outstanding c = 0))) \<and>
     (cpc c = C_unsync \<longrightarrow>
        (\<exists>c'. caller_step c = Some c' \<and> cpc c' = C_idle \<and> \<not> synced c' \<and>
              outstanding c' = length args)) \<and>
     (cpc c = C_set \<longrightarrow>
        (\<exists>c'. caller_step c = Some c' \<and> cpc c' = C_idle \<and> synced c' \<and> outstanding c' = 0)) \<and>
     (cpc c = C_idle \<and> synced c \<longrightarrow>
        finish_sem c = 0 \<and> (\<forall>i. worker_step F i c = None) \<and>
        (\<forall>rest. calls c = Sync # rest \<longrightarrow>
           exec F [Caller, Caller] c = Some (c\<lparr>calls := rest\<rparr>)))"
  proof (intro conjI impI)
    assume "cpc c = C_idle"
    from idle [OF this] show "outstanding c = (if synced c then 0 else length args)" .
    then show "synced c \<longleftrightarrow> outstanding c = 0" if "args \<noteq> []" using that by simp
  next
    assume u: "cpc c = C_unsync"
    with inv len have "outstanding c = length args" by (simp add: flag_inv_def)
    with u show "\<exists>c'. caller_step c = Some c' \<and> cpc c' = C_idle \<and> \<not> synced c' \<and>
              outstanding c' = length args"
      by (simp add: caller_step_def)
  next
    assume u: "cpc c = C_set"
    with inv have "outstanding c = 0" by (simp add: flag_inv_def)
    with u show "\<exists>c'. caller_step c = Some c' \<and> cpc c' = C_idle \<and> synced c' \<and> outstanding c' = 0"
      by (simp add: caller_step_def)
  next
    assume a: "cpc c = C_idle \<and> synced c"
    with quiet show "finish_sem c = 0" "\<forall>i. worker_step F i c = None" by simp_all
    show "\<forall>rest. calls c = Sync # rest \<longrightarrow> exec F [Caller, Caller] c = Some (c\<lparr>calls := rest\<rparr>)"
    proof (intro allI impI)
      fix rest assume "calls c = Sync # rest"
      with a show "exec F [Caller, Caller] c = Some (c\<lparr>calls := rest\<rparr>)"
        by (intro synced_sync_returns) simp_all
    qed
  qed
qed

theorem synced_iff_nothing_outstanding_witness:
  "paired True [Trigger, Sync, Sync] \<and>
   map_option (\<lambda>c. (cpc c, synced c, outstanding c))
     (exec (step_closure example_model 2) (take 5 sync_twice_schedule) sync_twice_start)
     = Some (C_idle, False, 2) \<and>
   map_option (\<lambda>c. (cpc c, synced c, calls c, outstanding c))
     (exec (step_closure example_model 2) (take 32 sync_twice_schedule) sync_twice_start)
     = Some (C_idle, True, [Sync], 0) \<and>
   map_option (\<lambda>c. (returned c, synced c, outstanding c))
     (exec (step_closure example_model 2) sync_twice_schedule sync_twice_start)
     = Some (True, True, 0)"
proof -
  have p: "paired True [Trigger, Sync, Sync]" by simp
  note inv = synced_iff_nothing_outstanding [OF p, where F = "step_closure example_model 2"
      and ?l0.0 = "(0, 0)" and args = "[0, 1]" and b = "new_barrier 2" and m = example_data]
  have "map_option (\<lambda>c. (cpc c, synced c))
     (exec (step_closure example_model 2) (take 5 sync_twice_schedule) sync_twice_start)
     = Some (C_idle, False)"
    by (simp add: sync_twice_defs)
  then obtain c1 where r1: "exec (step_closure example_model 2) (take 5 sync_twice_schedule)
      (run_config (new_pool (0, 0) [0, 1]) (new_barrier 2) example_data [Trigger, Sync, Sync])
      = Some c1" and c1: "cpc c1 = C_idle" "\<not> synced c1"
    unfolding sync_twice_start_def by auto
  from inv [THEN spec, THEN spec, THEN mp, OF r1] c1 have o1: "outstanding c1 = 2" by simp
  have "map_option (\<lambda>c. (cpc c, synced c, calls c))
     (exec (step_closure example_model 2) (take 32 sync_twice_schedule) sync_twice_start)
     = Some (C_idle, True, [Sync])"
    by (simp add: sync_twice_defs)
  then obtain c2 where r2: "exec (step_closure example_model 2) (take 32 sync_twice_schedule)
      (run_config (new_pool (0, 0) [0, 1]) (new_barrier 2) example_data [Trigger, Sync, Sync])
      = Some c2" and c2: "cpc c2 = C_idle" "synced c2" "calls c2 = [Sync]"
    unfolding sync_twice_start_def by auto
  from inv [THEN spec, THEN spec, THEN mp, OF r2] c2 have o2: "outstanding c2 = 0" by simp
  have "map_option (\<lambda>c. (returned c, synced c))
     (exec (step_closure example_model 2) sync_twice_schedule sync_twice_start)
     = Some (True, True)"
    by (simp add: sync_twice_defs)
  then obtain c3 where r3: "exec (step_closure example_model 2) sync_twice_schedule
      (run_config (new_pool (0, 0) [0, 1]) (new_barrier 2) example_data [Trigger, Sync, Sync])
      = Some c3" and c3: "returned c3" "synced c3"
    unfolding sync_twice_start_def by auto
  from c3 have "cpc c3 = C_idle" by (simp add: returned_def)
  with inv [THEN spec, THEN spec, THEN mp, OF r3] c3 have o3: "outstanding c3 = 0" by simp
  from p r1 c1 o1 r2 c2 o2 r3 c3 o3 show ?thesis by (simp add: sync_twice_start_def)
qed

text \<open>
  C9. The claim gives each helper exactly one barrier arrival fewer than the closure it
  duplicates. \<^verbatim>\<open>step_this_thread\<close> has one arrival and the closure of the update pool
  has three: two fewer.
\<close>

theorem step_this_thread_two_fewer_counterexample:
  "nbar (step_this_thread example_model 2) = 1 \<and> nbar (step_closure example_model 2) = 3 \<and>
   Suc (nbar (step_this_thread example_model 2)) \<noteq> nbar (step_closure example_model 2)"
  by (simp add: nbar_def step_this_thread_def step_closure_def)

text \<open>
  C9, amended. No function of the file calls \<^verbatim>\<open>ds_this_thread\<close> or
  \<^verbatim>\<open>step_this_thread\<close>. Without the barrier arrivals each helper is the statement
  sequence of the closure given to its pool: the partition computation, then the addition
  to the accumulator, respectively the elevation update and the gradient update.
  \<^verbatim>\<open>ds_this_thread\<close> arrives at the barrier once and its closure twice;
  \<^verbatim>\<open>step_this_thread\<close> arrives once and its closure three times.
\<close>

theorem helpers_unused_with_fewer_arrivals:
  fixes gm :: "'v::plus grid_model"
  shows "(\<forall>r. R_ds_this_thread \<notin> set (callees r) \<and> R_step_this_thread \<notin> set (callees r)) \<and>
     filter (\<lambda>x. \<not> is_barrier x) (ds_this_thread gm n)
       = filter (\<lambda>x. \<not> is_barrier x) (ds_closure gm n) \<and>
     filter (\<lambda>x. \<not> is_barrier x) (step_this_thread gm n)
       = filter (\<lambda>x. \<not> is_barrier x) (step_closure gm n) \<and>
     nbar (ds_this_thread gm n) = 1 \<and> nbar (ds_closure gm n) = 2 \<and>
     nbar (step_this_thread gm n) = 1 \<and> nbar (step_closure gm n) = 3"
proof -
  have "R_ds_this_thread \<notin> set (callees r) \<and> R_step_this_thread \<notin> set (callees r)" for r
    by (cases r) simp_all
  then show ?thesis
    by (simp add: nbar_def ds_this_thread_def ds_closure_def step_this_thread_def
        step_closure_def)
qed

end
